theory Spec2Isabelle
  imports Main "HOL-Library.Sublist"
begin

section \<open>Values, exceptions and the library functions the source calls\<close>

text \<open>
  A message file is decoded by \<^verbatim>\<open>json.load\<close>; the source never checks the shape of
  what it gets, so every field of a message is a JSON value. A Python \<^verbatim>\<open>dict\<close> read
  from JSON is an association list with pairwise different keys, in insertion order.
  Text is a \<^typ>\<open>string\<close> (the bytes of its UTF-8 encoding: equality, concatenation and
  the substring test agree with Python's on code points). A float is kept by its
  \<^verbatim>\<open>repr\<close> text; the source never computes with numbers.
\<close>

datatype json =
    JNull
  | JBool bool
  | JInt int
  | JFloat string
  | JStr string
  | JList "json list"
  | JDict "(string \<times> json) list"

text \<open>
  The exceptions the source tells apart: \<^verbatim>\<open>json.JSONDecodeError\<close>, any other instance of
  \<^verbatim>\<open>Exception\<close> (by its class name), \<^verbatim>\<open>KeyboardInterrupt\<close>, and any other
  \<^verbatim>\<open>BaseException\<close> that is not an \<^verbatim>\<open>Exception\<close> (\<^verbatim>\<open>SystemExit\<close>, \<^verbatim>\<open>GeneratorExit\<close>).
\<close>

datatype exc =
    JSONDecodeError
  | Error string
  | KeyboardInterrupt
  | BaseError string

fun is_Exception :: "exc \<Rightarrow> bool" where
  "is_Exception JSONDecodeError = True"
| "is_Exception (Error n) = True"
| "is_Exception KeyboardInterrupt = False"
| "is_Exception (BaseError n) = False"

text \<open>
  Three functions of the Python library are used by the filter and are not part of the
  repository: \<^verbatim>\<open>json.dumps\<close>, \<^verbatim>\<open>str\<close> and \<^verbatim>\<open>str.lower\<close>. They are parameters of the
  model; every theorem holds for each choice of them.
\<close>

record pylib =
  json_dumps :: "json \<Rightarrow> string"
  py_str :: "json \<Rightarrow> string"
  lower :: "string \<Rightarrow> string"

section \<open>SynapseMessage\<close>

record message =
  msg_id :: json
  from_agent :: json
  to :: json
  subject :: json
  body :: json
  priority :: json
  timestamp :: json
  filepath :: string

text \<open>
  What \<^verbatim>\<open>open\<close> followed by \<^verbatim>\<open>json.load\<close> finds at a path: the file cannot be opened or
  read (an \<^verbatim>\<open>OSError\<close>, a \<^verbatim>\<open>UnicodeDecodeError\<close>: an \<^verbatim>\<open>Exception\<close> named by its class), its
  text is not JSON, or it holds a JSON document.
\<close>

datatype content = Unreadable string | Malformed | Document json

type_synonym fsys = "string \<Rightarrow> content"

fun json_load :: "content \<Rightarrow> exc + json" where
  "json_load (Unreadable n) = Inl (Error n)"
| "json_load Malformed = Inl JSONDecodeError"
| "json_load (Document j) = Inr j"

text \<open>\<^verbatim>\<open>d.get(k, default)\<close> on a dict.\<close>

definition dict_get :: "(string \<times> json) list \<Rightarrow> string \<Rightarrow> json \<Rightarrow> json" where
  "dict_get d k dflt = (case map_of d k of Some v \<Rightarrow> v | None \<Rightarrow> dflt)"

text \<open>
  \<^verbatim>\<open>SynapseMessage.from_file\<close>. A document that is not an object has no \<^verbatim>\<open>get\<close>:
  the first \<^verbatim>\<open>data.get\<close> raises \<^verbatim>\<open>AttributeError\<close>.
\<close>

definition from_file :: "fsys \<Rightarrow> string \<Rightarrow> exc + message" where
  "from_file fs p =
     (case json_load (fs p) of
        Inl e \<Rightarrow> Inl e
      | Inr data \<Rightarrow>
          (case data of
             JDict d \<Rightarrow>
               Inr \<lparr> msg_id = dict_get d ''msg_id'' (dict_get d ''message_id'' (JStr ''unknown'')),
                     from_agent = dict_get d ''from'' (dict_get d ''from_agent'' (JStr ''UNKNOWN'')),
                     to = dict_get d ''to'' (JList []),
                     subject = dict_get d ''subject'' (JStr ''''),
                     body = dict_get d ''body'' (JDict []),
                     priority = dict_get d ''priority'' (JStr ''NORMAL''),
                     timestamp = dict_get d ''timestamp'' (JStr ''''),
                     filepath = p \<rparr>
           | _ \<Rightarrow> Inl (Error ''AttributeError'')))"

section \<open>MessageFilter\<close>

record mfilter =
  flt_to_agent :: "string option"
  flt_from_agent :: "string option"
  flt_priority :: "string option"
  flt_keywords :: "string list"

text \<open>The constructor: \<^verbatim>\<open>self.keywords = keywords or []\<close>.\<close>

definition MessageFilter ::
  "string option \<Rightarrow> string option \<Rightarrow> string option \<Rightarrow> string list option \<Rightarrow> mfilter" where
  "MessageFilter t f p k =
     \<lparr> flt_to_agent = t, flt_from_agent = f, flt_priority = p,
       flt_keywords = (case k of None \<Rightarrow> [] | Some ks \<Rightarrow> ks) \<rparr>"

text \<open>
  The truth value of an \<^verbatim>\<open>Optional[str]\<close> in \<^verbatim>\<open>if self.to_agent:\<close>: \<^verbatim>\<open>None\<close> and the
  empty string are both false.
\<close>

definition truthy :: "string option \<Rightarrow> bool" where
  "truthy c = (case c of None \<Rightarrow> False | Some s \<Rightarrow> s \<noteq> [])"

text \<open>\<^verbatim>\<open>message.to if isinstance(message.to, list) else [message.to]\<close>\<close>

definition to_list :: "message \<Rightarrow> json list" where
  "to_list m = (case to m of JList xs \<Rightarrow> xs | v \<Rightarrow> [v])"

text \<open>
  \<^verbatim>\<open>json.dumps(message.body) if isinstance(message.body, dict) else str(message.body)\<close>
\<close>

definition body_text :: "pylib \<Rightarrow> message \<Rightarrow> string" where
  "body_text L m =
     (case body m of JDict d \<Rightarrow> json_dumps L (JDict d) | v \<Rightarrow> py_str L v)"

text \<open>\<^verbatim>\<open>sub in text\<close> on strings: \<^verbatim>\<open>sub\<close> starts at some position of \<^verbatim>\<open>text\<close>.\<close>

fun str_contains :: "string \<Rightarrow> string \<Rightarrow> bool" where
  "str_contains [] sub = (sub = [])"
| "str_contains (c # cs) sub = (prefix sub (c # cs) \<or> str_contains cs sub)"

text \<open>
  \<^verbatim>\<open>MessageFilter.matches\<close>. The four checks run in the order of the source, each
  returning \<^verbatim>\<open>False\<close> at once. A string compares equal to a JSON value only when that
  value is the same string. \<^verbatim>\<open>message.subject + " "\<close> raises \<^verbatim>\<open>TypeError\<close> unless the
  subject is a string.
\<close>

definition matches :: "pylib \<Rightarrow> mfilter \<Rightarrow> message \<Rightarrow> exc + bool" where
  "matches L f m =
     (if truthy (flt_to_agent f)
         \<and> JStr (the (flt_to_agent f)) \<notin> set (to_list m)
         \<and> JStr ''ALL_AGENTS'' \<notin> set (to_list m)
         \<and> JStr ''ALL'' \<notin> set (to_list m)
      then Inr False
      else if truthy (flt_from_agent f) \<and> from_agent m \<noteq> JStr (the (flt_from_agent f))
      then Inr False
      else if truthy (flt_priority f) \<and> priority m \<noteq> JStr (the (flt_priority f))
      then Inr False
      else if flt_keywords f \<noteq> []
      then (case subject m of
              JStr s \<Rightarrow>
                (let text = lower L (s @ '' '' @ body_text L m)
                 in if \<not> list_ex (\<lambda>kw. str_contains text (lower L kw)) (flt_keywords f)
                    then Inr False
                    else Inr True)
            | _ \<Rightarrow> Inl (Error ''TypeError''))
      else Inr True)"

section \<open>SynapseWatcher: state, log and handlers\<close>

text \<open>
  What the watcher does to the outside is recorded as a list of events: each call of
  the logger, with its level and its message (one constructor for each message of the
  source, holding the values the message prints), and each call \<^verbatim>\<open>callback(message)\<close>
  of a registered handler, by the handler's name.
\<close>

datatype level = DEBUG | INFO | WARNING | ERROR

datatype logmsg =
    Registered_callback string
  | Filter_set mfilter
  | Error_detecting exc
  | Filtered_out json
  | NEW_MESSAGE json json json
  | Callback_error string exc
  | Invalid_JSON string exc
  | Error_processing string exc
  | Watching string
  | Poll_interval int
  | Callbacks_registered nat
  | Marked_existing nat
  | Keyboard_interrupt
  | Error_in_loop exc
  | Already_running
  | No_callbacks
  | Started
  | Stopped_msg
  | Stop_requested

datatype event = Log level logmsg | Call "string option" message

text \<open>
  A handler is a callable; called with a message it returns (\<^term>\<open>None\<close>) or raises.
  A function has a name (\<^verbatim>\<open>__name__\<close>); other callables (a \<^verbatim>\<open>functools.partial\<close>, an
  object with \<^verbatim>\<open>__call__\<close>) have none, and reading \<^verbatim>\<open>callback.__name__\<close> raises
  \<^verbatim>\<open>AttributeError\<close> for them. Handlers do not touch the watcher.
\<close>

record handler =
  hname :: "string option"
  hbody :: "message \<Rightarrow> exc option"

text \<open>
  The fields of a \<^verbatim>\<open>SynapseWatcher\<close>. A path is the name of a file in the inbox. The poll
  interval is a whole number of clock ticks (the source has seconds as a float; a
  negative one makes \<^verbatim>\<open>time.sleep\<close> raise \<^verbatim>\<open>ValueError\<close>).
\<close>

record watcher =
  synapse_path :: string
  poll_interval :: int
  message_filter :: "mfilter option"
  callbacks :: "handler list"
  seen_messages :: "string set"
  running :: bool

text \<open>
  \<^verbatim>\<open>register_callback\<close> appends first and logs the name afterwards: for a callable
  without a name the log line raises, and the callable stays registered.
\<close>

definition register_callback :: "watcher \<Rightarrow> handler \<Rightarrow> watcher \<times> event list \<times> exc option" where
  "register_callback w h =
     (w\<lparr>callbacks := callbacks w @ [h]\<rparr>,
      (case hname h of
         Some n \<Rightarrow> ([Log INFO (Registered_callback n)], None)
       | None \<Rightarrow> ([], Some (Error ''AttributeError''))))"

text \<open>Registering several handlers in turn, going on whatever a registration raises.\<close>

fun register_all :: "watcher \<Rightarrow> handler list \<Rightarrow> watcher" where
  "register_all w [] = w"
| "register_all w (h # hs) = register_all (fst (register_callback w h)) hs"

definition set_filter :: "watcher \<Rightarrow> mfilter \<Rightarrow> watcher \<times> event list" where
  "set_filter w f = (w\<lparr>message_filter := Some f\<rparr>, [Log INFO (Filter_set f)])"

definition stop :: "watcher \<Rightarrow> watcher \<times> event list" where
  "stop w = (w\<lparr>running := False\<rparr>, [Log INFO Stop_requested])"

section \<open>Detection of new files\<close>

text \<open>
  \<^verbatim>\<open>Path.stem\<close> of a file name (Python up to 3.13): the name without its last suffix,
  where a dot at the start or at the end of the name starts no suffix.
\<close>

definition rfind_dot :: "string \<Rightarrow> nat option" where
  "rfind_dot s =
     (if CHR ''.'' \<in> set s
      then Some (length s - 1 - length (takeWhile (\<lambda>c. c \<noteq> CHR ''.'') (rev s)))
      else None)"

definition stem :: "string \<Rightarrow> string" where
  "stem name =
     (case rfind_dot name of
        Some i \<Rightarrow> if 0 < i \<and> i + 1 < length name then take i name else name
      | None \<Rightarrow> name)"

text \<open>
  One run of \<^verbatim>\<open>self.synapse_path.glob("*.json")\<close>: the paths the iterator yields, and
  then either its end or the exception it raises.
\<close>

datatype scan = Scan "string list" "exc option"

text \<open>The \<^verbatim>\<open>for\<close> loop of \<^verbatim>\<open>_detect_new_messages\<close> over the yielded paths.\<close>

fun detect_loop :: "string set \<Rightarrow> string list \<Rightarrow> string list \<times> string set" where
  "detect_loop seen [] = ([], seen)"
| "detect_loop seen (p # ps) =
     (if stem p \<notin> seen
      then (case detect_loop (insert (stem p) seen) ps of (new, seen') \<Rightarrow> (p # new, seen'))
      else detect_loop seen ps)"

text \<open>
  \<^verbatim>\<open>_detect_new_messages\<close>: the new paths, the watcher with its seen-set updated, the
  log, and an exception that leaves the method (\<^verbatim>\<open>except Exception\<close> lets anything
  else through; the list built so far is then lost, the seen-set is not).
\<close>

definition detect_new_messages ::
  "watcher \<Rightarrow> scan \<Rightarrow> string list \<times> watcher \<times> event list \<times> exc option" where
  "detect_new_messages w sc =
     (case sc of Scan ps r \<Rightarrow>
        (case detect_loop (seen_messages w) ps of (new, seen') \<Rightarrow>
           (case r of
              None \<Rightarrow> (new, w\<lparr>seen_messages := seen'\<rparr>, [], None)
            | Some e \<Rightarrow>
                if is_Exception e
                then (new, w\<lparr>seen_messages := seen'\<rparr>, [Log ERROR (Error_detecting e)], None)
                else ([], w\<lparr>seen_messages := seen'\<rparr>, [], Some e))))"

section \<open>Processing one file\<close>

text \<open>
  The loop over \<^verbatim>\<open>self.callbacks\<close>: each call is wrapped in \<^verbatim>\<open>except Exception\<close>, which
  logs the name of the handler with the exception and goes on; an exception that is not
  an \<^verbatim>\<open>Exception\<close> ends the loop and is passed on. The log line reads
  \<^verbatim>\<open>callback.__name__\<close>: for a handler without a name it raises \<^verbatim>\<open>AttributeError\<close> inside
  the \<^verbatim>\<open>except\<close> clause, which ends the loop and is passed on in place of the handler's
  exception.
\<close>

fun run_callbacks :: "handler list \<Rightarrow> message \<Rightarrow> event list \<times> exc option" where
  "run_callbacks [] m = ([], None)"
| "run_callbacks (h # hs) m =
     (case hbody h m of
        None \<Rightarrow>
          (case run_callbacks hs m of (ev, r) \<Rightarrow> (Call (hname h) m # ev, r))
      | Some e \<Rightarrow>
          if is_Exception e
          then (case hname h of
                  Some n \<Rightarrow>
                    (case run_callbacks hs m of (ev, r) \<Rightarrow>
                       (Call (hname h) m # Log ERROR (Callback_error n e) # ev, r))
                | None \<Rightarrow> ([Call (hname h) m], Some (Error ''AttributeError'')))
          else ([Call (hname h) m], Some e))"

text \<open>
  The body of the \<^verbatim>\<open>try\<close> in \<^verbatim>\<open>_process_message\<close>: load, filter, log, call back.
\<close>

definition process_body :: "pylib \<Rightarrow> watcher \<Rightarrow> fsys \<Rightarrow> string \<Rightarrow> event list \<times> exc option" where
  "process_body L w fs p =
     (case from_file fs p of
        Inl e \<Rightarrow> ([], Some e)
      | Inr m \<Rightarrow>
          (case (case message_filter w of None \<Rightarrow> Inr True | Some f \<Rightarrow> matches L f m) of
             Inl e \<Rightarrow> ([], Some e)
           | Inr ok \<Rightarrow>
               if \<not> ok then ([Log DEBUG (Filtered_out (msg_id m))], None)
               else (case run_callbacks (callbacks w) m of (ev, r) \<Rightarrow>
                       (Log INFO (NEW_MESSAGE (msg_id m) (from_agent m) (subject m)) # ev, r))))"

text \<open>
  \<^verbatim>\<open>_process_message\<close>: the two \<^verbatim>\<open>except\<close> clauses around the body, in their order.
\<close>

definition process_message :: "pylib \<Rightarrow> watcher \<Rightarrow> fsys \<Rightarrow> string \<Rightarrow> event list \<times> exc option" where
  "process_message L w fs p =
     (case process_body L w fs p of (ev, r) \<Rightarrow>
        (case r of
           None \<Rightarrow> (ev, None)
         | Some e \<Rightarrow>
             if e = JSONDecodeError then (ev @ [Log ERROR (Invalid_JSON p e)], None)
             else if is_Exception e then (ev @ [Log ERROR (Error_processing p e)], None)
             else (ev, Some e)))"

section \<open>The watch loop\<close>

text \<open>\<^verbatim>\<open>for filepath in new_messages: self._process_message(filepath)\<close>\<close>

fun process_queue :: "pylib \<Rightarrow> watcher \<Rightarrow> fsys \<Rightarrow> string list \<Rightarrow> event list \<times> exc option" where
  "process_queue L w fs [] = ([], None)"
| "process_queue L w fs (p # ps) =
     (case process_message L w fs p of (ev, r) \<Rightarrow>
        (case r of
           Some e \<Rightarrow> (ev, Some e)
         | None \<Rightarrow> (case process_queue L w fs ps of (ev', r') \<Rightarrow> (ev @ ev', r'))))"

text \<open>What the loop thread finds outside itself when it runs: the inbox and its files.\<close>

record world =
  listing :: scan
  files :: fsys

text \<open>
  The body of the \<^verbatim>\<open>try\<close> of \<^verbatim>\<open>_watch_loop\<close> up to the sleep: detect, then process each
  new file.
\<close>

definition watch_cycle :: "pylib \<Rightarrow> watcher \<Rightarrow> world \<Rightarrow> watcher \<times> event list \<times> exc option" where
  "watch_cycle L w env =
     (case detect_new_messages w (listing env) of (new, w', ev, r) \<Rightarrow>
        (case r of
           Some e \<Rightarrow> (w', ev, Some e)
         | None \<Rightarrow> (case process_queue L w' (files env) new of (ev', r') \<Rightarrow> (w', ev @ ev', r'))))"

text \<open>
  The thread that called \<^verbatim>\<open>start()\<close>: it is at the loop condition, inside
  \<^verbatim>\<open>time.sleep\<close> with some ticks left, or back from \<^verbatim>\<open>start()\<close> (with the exception
  that left it, if any). Its trace lists the events of this call of \<^verbatim>\<open>start()\<close>.
\<close>

datatype pc = LoopTop | Sleeping nat | Returned "exc option"

record thread =
  self :: watcher
  pc :: pc
  trace :: "event list"

text \<open>The \<^verbatim>\<open>finally\<close> clause of \<^verbatim>\<open>start()\<close>.\<close>

definition finish :: "watcher \<Rightarrow> event list \<Rightarrow> exc option \<Rightarrow> thread" where
  "finish w evs r =
     \<lparr> self = w\<lparr>running := False\<rparr>, pc = Returned r, trace = evs @ [Log INFO Stopped_msg] \<rparr>"

text \<open>The scan before the loop: \<^verbatim>\<open>self.seen_messages.add(filepath.stem)\<close> for each path.\<close>

fun mark_existing :: "string set \<Rightarrow> string list \<Rightarrow> string set" where
  "mark_existing seen [] = seen"
| "mark_existing seen (p # ps) = mark_existing (insert (stem p) seen) ps"

text \<open>
  \<^verbatim>\<open>start()\<close> up to the first test of the loop condition, given what the first glob
  yields. The first scan is outside every \<^verbatim>\<open>try\<close> but the \<^verbatim>\<open>finally\<close> of \<^verbatim>\<open>start()\<close>.
\<close>

definition start :: "watcher \<Rightarrow> scan \<Rightarrow> thread" where
  "start w sc =
     (if running w
      then \<lparr> self = w, pc = Returned None, trace = [Log WARNING Already_running] \<rparr>
      else
        (let ev = (if callbacks w = [] then [Log WARNING No_callbacks] else [])
                  @ [Log INFO Started,
                     Log INFO (Watching (synapse_path w)),
                     Log INFO (Poll_interval (poll_interval w)),
                     Log INFO (Callbacks_registered (length (callbacks w)))]
         in case sc of Scan ps r \<Rightarrow>
              (let w' = w\<lparr>running := True, seen_messages := mark_existing (seen_messages w) ps\<rparr>
               in case r of
                    Some e \<Rightarrow> finish w' ev (Some e)
                  | None \<Rightarrow>
                      \<lparr> self = w', pc = LoopTop,
                        trace = ev @ [Log INFO (Marked_existing (card (seen_messages w')))] \<rparr>)))"

text \<open>
  \<^verbatim>\<open>time.sleep(self.poll_interval)\<close>, first in the \<^verbatim>\<open>try\<close> and then in the handler of
  \<^verbatim>\<open>except Exception\<close>, where nothing catches its \<^verbatim>\<open>ValueError\<close>.
\<close>

definition after_sleep :: "nat \<Rightarrow> pc" where
  "after_sleep k = (if k = 0 then LoopTop else Sleeping k)"

definition handler_sleep :: "watcher \<Rightarrow> event list \<Rightarrow> thread" where
  "handler_sleep w evs =
     (if poll_interval w < 0 then finish w evs (Some (Error ''ValueError''))
      else \<lparr> self = w, pc = after_sleep (nat (poll_interval w)), trace = evs \<rparr>)"

definition try_sleep :: "watcher \<Rightarrow> event list \<Rightarrow> thread" where
  "try_sleep w evs =
     (if poll_interval w < 0
      then handler_sleep w (evs @ [Log ERROR (Error_in_loop (Error ''ValueError''))])
      else \<lparr> self = w, pc = after_sleep (nat (poll_interval w)), trace = evs \<rparr>)"

text \<open>
  One step of the loop thread. At the loop condition it leaves the loop when the flag
  is down and runs a whole cycle otherwise; asleep, one tick passes, whatever the flag
  says; after \<^verbatim>\<open>start()\<close> has returned nothing happens.
\<close>

definition step :: "pylib \<Rightarrow> world \<Rightarrow> thread \<Rightarrow> thread" where
  "step L env th =
     (case pc th of
        Returned r \<Rightarrow> th
      | Sleeping k \<Rightarrow> th\<lparr>pc := after_sleep (k - 1)\<rparr>
      | LoopTop \<Rightarrow>
          if \<not> running (self th) then finish (self th) (trace th) None
          else (case watch_cycle L (self th) env of (w', ev, r) \<Rightarrow>
                  (case r of
                     None \<Rightarrow> try_sleep w' (trace th @ ev)
                   | Some e \<Rightarrow>
                       if e = KeyboardInterrupt
                       then finish w' (trace th @ ev @ [Log INFO Keyboard_interrupt]) None
                       else if is_Exception e
                       then handler_sleep w' (trace th @ ev @ [Log ERROR (Error_in_loop e)])
                       else finish w' (trace th @ ev) (Some e))))"

text \<open>
  What happens next is a step of the loop thread, in the world of that moment, or a
  call of \<^verbatim>\<open>stop()\<close> from elsewhere.
\<close>

datatype input = Advance world | Stop

definition react :: "pylib \<Rightarrow> thread \<Rightarrow> input \<Rightarrow> thread" where
  "react L th i =
     (case i of
        Advance env \<Rightarrow> step L env th
      | Stop \<Rightarrow> (case stop (self th) of (w', ev) \<Rightarrow> th\<lparr>self := w', trace := trace th @ ev\<rparr>))"

fun run :: "pylib \<Rightarrow> thread \<Rightarrow> input list \<Rightarrow> thread" where
  "run L th [] = th"
| "run L th (i # is) = run L (react L th i) is"

text \<open>
  The constructor, for a path that exists and is a directory (it raises
  \<^verbatim>\<open>FileNotFoundError\<close> or \<^verbatim>\<open>NotADirectoryError\<close> otherwise and makes no watcher).
\<close>

definition SynapseWatcher :: "string \<Rightarrow> int \<Rightarrow> mfilter option \<Rightarrow> watcher" where
  "SynapseWatcher path interval flt =
     \<lparr> synapse_path = path, poll_interval = interval, message_filter = flt,
       callbacks = [], seen_messages = {}, running = False \<rparr>"

section \<open>Concrete inputs\<close>

text \<open>
  An inbox given by its files; a path it does not list cannot be opened.
\<close>

definition fs_of :: "(string \<times> content) list \<Rightarrow> fsys" where
  "fs_of al p = (case map_of al p of Some c \<Rightarrow> c | None \<Rightarrow> Unreadable ''FileNotFoundError'')"

text \<open>
  An instance of the library for text in printable ASCII: \<^verbatim>\<open>str.lower\<close>, \<^verbatim>\<open>json.dumps\<close>
  with its default separators, and \<^verbatim>\<open>str\<close>. The theorems do not depend on it; it serves
  to evaluate the model on examples.
\<close>

definition lower_char :: "char \<Rightarrow> char" where
  "lower_char c =
     (let n = (of_char c :: nat) in if 65 \<le> n \<and> n \<le> 90 then char_of (n + 32) else c)"

fun digits :: "nat \<Rightarrow> string" where
  "digits n =
     (if n < 10 then [char_of (48 + n)] else digits (n div 10) @ [char_of (48 + n mod 10)])"

definition show_int :: "int \<Rightarrow> string" where
  "show_int i = (if i < 0 then CHR ''-'' # digits (nat (- i)) else digits (nat i))"

fun join :: "string \<Rightarrow> string list \<Rightarrow> string" where
  "join sep [] = []"
| "join sep [x] = x"
| "join sep (x # y # ys) = x @ sep @ join sep (y # ys)"

definition escape :: "char list \<Rightarrow> string \<Rightarrow> string" where
  "escape special s = concat (map (\<lambda>c. if c \<in> set special then [CHR 0x5C, c] else [c]) s)"

definition quote_json :: "string \<Rightarrow> string" where
  "quote_json s = [CHR 0x22] @ escape [CHR 0x22, CHR 0x5C] s @ [CHR 0x22]"

definition dumps_float :: "string \<Rightarrow> string" where
  "dumps_float r =
     (if r = ''inf'' then ''Infinity'' else if r = ''-inf'' then ''-Infinity''
      else if r = ''nan'' then ''NaN'' else r)"

primrec dumps :: "json \<Rightarrow> string" where
  "dumps JNull = ''null''"
| "dumps (JBool b) = (if b then ''true'' else ''false'')"
| "dumps (JInt i) = show_int i"
| "dumps (JFloat r) = dumps_float r"
| "dumps (JStr s) = quote_json s"
| "dumps (JList xs) = ''['' @ join '', '' (map dumps xs) @ '']''"
| "dumps (JDict d) =
     ''{'' @ join '', '' (map (\<lambda>kv. quote_json (fst kv) @ '': '' @ snd kv) (map (map_prod id dumps) d))
       @ ''}''"

definition repr_str :: "string \<Rightarrow> string" where
  "repr_str s =
     (if CHR 0x27 \<in> set s \<and> CHR 0x22 \<notin> set s
      then [CHR 0x22] @ escape [CHR 0x5C] s @ [CHR 0x22]
      else [CHR 0x27] @ escape [CHR 0x27, CHR 0x5C] s @ [CHR 0x27])"

primrec py_repr :: "json \<Rightarrow> string" where
  "py_repr JNull = ''None''"
| "py_repr (JBool b) = (if b then ''True'' else ''False'')"
| "py_repr (JInt i) = show_int i"
| "py_repr (JFloat r) = r"
| "py_repr (JStr s) = repr_str s"
| "py_repr (JList xs) = ''['' @ join '', '' (map py_repr xs) @ '']''"
| "py_repr (JDict d) =
     ''{'' @ join '', '' (map (\<lambda>kv. repr_str (fst kv) @ '': '' @ snd kv) (map (map_prod id py_repr) d))
       @ ''}''"

definition lib0 :: pylib where
  "lib0 =
     \<lparr> json_dumps = dumps,
       py_str = (\<lambda>v. case v of JStr s \<Rightarrow> s | _ \<Rightarrow> py_repr v),
       lower = map lower_char \<rparr>"

text \<open>
  A function that returns, a function that raises the given exception, and a callable
  without a name (such as a \<^verbatim>\<open>functools.partial\<close>) that raises it.
\<close>

definition returning :: "string \<Rightarrow> handler" where
  "returning n = \<lparr> hname = Some n, hbody = (\<lambda>m. None) \<rparr>"

definition raising :: "string \<Rightarrow> exc \<Rightarrow> handler" where
  "raising n e = \<lparr> hname = Some n, hbody = (\<lambda>m. Some e) \<rparr>"

definition raising_partial :: "exc \<Rightarrow> handler" where
  "raising_partial e = \<lparr> hname = None, hbody = (\<lambda>m. Some e) \<rparr>"

section \<open>Reading a trace\<close>

text \<open>
  The handler calls recorded in a trace, in order: the handler's name (if it has one)
  and its argument.
\<close>

fun calls_of :: "event list \<Rightarrow> (string option \<times> message) list" where
  "calls_of [] = []"
| "calls_of (Call n m # evs) = (n, m) # calls_of evs"
| "calls_of (Log l x # evs) = calls_of evs"

text \<open>
  The calls whose message was read from a file with the given stem (the identity the
  detection step goes by).
\<close>

definition calls_for :: "string \<Rightarrow> event list \<Rightarrow> (string option \<times> message) list" where
  "calls_for s evs = filter (\<lambda>c. stem (filepath (snd c)) = s) (calls_of evs)"

section \<open>An invariant of the sleeping thread\<close>

text \<open>
  The poll interval never changes, and a thread inside \<^verbatim>\<open>time.sleep\<close> has at least one
  tick and at most the poll interval left.
\<close>

definition sleep_inv :: "int \<Rightarrow> thread \<Rightarrow> bool" where
  "sleep_inv n th \<longleftrightarrow>
     poll_interval (self th) = n
     \<and> (case pc th of Sleeping k \<Rightarrow> 1 \<le> k \<and> int k \<le> n | _ \<Rightarrow> True)"

section \<open>Facts about the filter\<close>

lemma str_contains_iff: "str_contains hay sub \<longleftrightarrow> (\<exists>pre post. hay = pre @ sub @ post)"
proof (induction hay)
  case Nil
  then show ?case by auto
next
  case (Cons c cs)
  show ?case
  proof
    assume "str_contains (c # cs) sub"
    then consider "prefix sub (c # cs)" | "str_contains cs sub" by auto
    then show "\<exists>pre post. c # cs = pre @ sub @ post"
    proof cases
      case 1
      then obtain post where "c # cs = sub @ post" by (auto simp: prefix_def)
      then have "c # cs = [] @ sub @ post" by simp
      then show ?thesis by blast
    next
      case 2
      with Cons.IH obtain pre post where "cs = pre @ sub @ post" by auto
      then have "c # cs = (c # pre) @ sub @ post" by simp
      then show ?thesis by blast
    qed
  next
    assume "\<exists>pre post. c # cs = pre @ sub @ post"
    then obtain pre post where eq: "c # cs = pre @ sub @ post" by auto
    show "str_contains (c # cs) sub"
    proof (cases pre)
      case Nil
      with eq have "prefix sub (c # cs)" by (auto simp: prefix_def)
      then show ?thesis by simp
    next
      case (Cons a pre')
      with eq have "cs = pre' @ sub @ post" by simp
      with Cons.IH have "str_contains cs sub" by blast
      then show ?thesis by simp
    qed
  qed
qed

section \<open>Parsing a message file\<close>

text \<open>
  C5. Parsing a JSON object that holds nothing but an identity field (the primary key
  \<^verbatim>\<open>msg_id\<close>, its alias \<^verbatim>\<open>message_id\<close>, or both) raises nothing and gives a message whose
  identity is the value of the primary key, else the value of the alias, else
  \<^verbatim>\<open>"unknown"\<close>, with sender \<^verbatim>\<open>"UNKNOWN"\<close>, no recipients, empty subject, empty object as
  body, priority \<^verbatim>\<open>"NORMAL"\<close> and empty timestamp.
\<close>

theorem from_file_identity_only:
  assumes "fs p = Document (JDict d)"
    and "fst ` set d \<subseteq> {''msg_id'', ''message_id''}"
  shows "from_file fs p =
     Inr \<lparr> msg_id = (case map_of d ''msg_id'' of
                       Some v \<Rightarrow> v
                     | None \<Rightarrow> (case map_of d ''message_id'' of
                                  Some v \<Rightarrow> v
                                | None \<Rightarrow> JStr ''unknown'')),
           from_agent = JStr ''UNKNOWN'', to = JList [], subject = JStr '''', body = JDict [],
           priority = JStr ''NORMAL'', timestamp = JStr '''', filepath = p \<rparr>"
proof -
  have none: "map_of d k = None" if "k \<noteq> ''msg_id''" "k \<noteq> ''message_id''" for k
    using assms(2) that by (auto simp: map_of_eq_None_iff)
  show ?thesis
    using assms(1) by (simp add: from_file_def dict_get_def none)
qed

theorem from_file_identity_only_witness:
  "from_file (fs_of [(''m1.json'', Document (JDict [(''msg_id'', JStr ''m1'')]))]) ''m1.json'' =
     Inr \<lparr> msg_id = JStr ''m1'',
           from_agent = JStr ''UNKNOWN'', to = JList [], subject = JStr '''', body = JDict [],
           priority = JStr ''NORMAL'', timestamp = JStr '''', filepath = ''m1.json'' \<rparr>"
  using from_file_identity_only
    [of "fs_of [(''m1.json'', Document (JDict [(''msg_id'', JStr ''m1'')]))]" "''m1.json''"
        "[(''msg_id'', JStr ''m1'')]"]
  by (simp add: fs_of_def)

text \<open>
  C4, as the claim states it, fails: the file \<^verbatim>\<open>m1.json\<close> holding the object
  \<^verbatim>\<open>{"subject": "hi"}\<close> parses to a message whose identity is \<^verbatim>\<open>"unknown"\<close>, which is
  neither the stem of the file name nor the file name.
\<close>

theorem from_file_identity_not_filename:
  "from_file (fs_of [(''m1.json'', Document (JDict [(''subject'', JStr ''hi'')]))]) ''m1.json''
     = Inr \<lparr> msg_id = JStr ''unknown'', from_agent = JStr ''UNKNOWN'', to = JList [],
             subject = JStr ''hi'', body = JDict [], priority = JStr ''NORMAL'',
             timestamp = JStr '''', filepath = ''m1.json'' \<rparr>
   \<and> stem ''m1.json'' = ''m1''
   \<and> JStr ''unknown'' \<noteq> JStr (stem ''m1.json'')
   \<and> JStr ''unknown'' \<noteq> JStr ''m1.json''"
  by (simp add: from_file_def dict_get_def fs_of_def stem_def rfind_dot_def)

text \<open>
  C4, amended. For every message file whose JSON object has neither the primary identity
  key nor its alias, parsing succeeds and the identity of the message is the literal
  \<^verbatim>\<open>"unknown"\<close>; the file name is kept in the \<^verbatim>\<open>filepath\<close> field only.
\<close>

theorem from_file_no_identity:
  assumes "fs p = Document (JDict d)"
    and "map_of d ''msg_id'' = None" and "map_of d ''message_id'' = None"
  shows "\<exists>m. from_file fs p = Inr m \<and> msg_id m = JStr ''unknown'' \<and> filepath m = p"
  using assms by (simp add: from_file_def dict_get_def)

theorem from_file_no_identity_witness:
  "\<exists>m. from_file (fs_of [(''m2.json'', Document (JDict [(''from'', JStr ''A'')]))]) ''m2.json'' = Inr m
      \<and> msg_id m = JStr ''unknown'' \<and> filepath m = ''m2.json''"
  using from_file_no_identity
    [of "fs_of [(''m2.json'', Document (JDict [(''from'', JStr ''A'')]))]" "''m2.json''"
        "[(''from'', JStr ''A'')]"]
  by (simp add: fs_of_def)

section \<open>Starting twice\<close>

lemma run_returned: "pc th = Returned r \<Longrightarrow> run L th (map Advance envs) = th"
  by (induction envs) (simp_all add: react_def step_def)

text \<open>
  C10. Called on a watcher that is running, \<^verbatim>\<open>start()\<close> returns at once: it logs one
  warning, reads nothing of the inbox, leaves every field of the watcher as it was, and
  no later step of this call does anything (the loop is not entered).
\<close>

theorem start_while_running:
  assumes "running w"
  shows "start w sc = \<lparr> self = w, pc = Returned None, trace = [Log WARNING Already_running] \<rparr>
       \<and> run L (start w sc) (map Advance envs) = start w sc"
proof -
  have s: "start w sc = \<lparr> self = w, pc = Returned None, trace = [Log WARNING Already_running] \<rparr>"
    using assms by (simp add: start_def)
  have "run L (start w sc) (map Advance envs) = start w sc"
    by (rule run_returned [of _ None]) (simp add: s)
  with s show ?thesis by simp
qed

theorem start_while_running_witness:
  "start ((SynapseWatcher ''inbox'' 1 None)\<lparr>running := True\<rparr>) (Scan [''a.json''] None)
     = \<lparr> self = (SynapseWatcher ''inbox'' 1 None)\<lparr>running := True\<rparr>, pc = Returned None,
         trace = [Log WARNING Already_running] \<rparr>
   \<and> run lib0 (start ((SynapseWatcher ''inbox'' 1 None)\<lparr>running := True\<rparr>) (Scan [''a.json''] None))
         (map Advance [\<lparr> listing = Scan [''a.json'', ''b.json''] None, files = fs_of [] \<rparr>])
     = start ((SynapseWatcher ''inbox'' 1 None)\<lparr>running := True\<rparr>) (Scan [''a.json''] None)"
proof -
  have r: "running ((SynapseWatcher ''inbox'' 1 None)\<lparr>running := True\<rparr>)"
    by simp
  show ?thesis
    by (rule start_while_running [OF r])
qed

section \<open>The recipient check\<close>

text \<open>
  C6, as the claim states it, fails for the constraint \<^verbatim>\<open>""\<close>: a filter made with
  \<^verbatim>\<open>to_agent=""\<close> lets a message to \<^verbatim>\<open>["BOLT"]\<close> pass, although the empty string is not
  among the recipients and neither broadcast marker is.
\<close>

theorem matches_empty_recipient_passes:
  "matches lib0 (MessageFilter (Some '''') None None None)
     \<lparr> msg_id = JStr ''m1'', from_agent = JStr ''FORGE'', to = JList [JStr ''BOLT''],
       subject = JStr ''hi'', body = JDict [], priority = JStr ''HIGH'', timestamp = JStr '''',
       filepath = ''m1.json'' \<rparr> = Inr True
   \<and> JStr '''' \<notin> set [JStr ''BOLT'']
   \<and> JStr ''ALL_AGENTS'' \<notin> set [JStr ''BOLT'']
   \<and> JStr ''ALL'' \<notin> set [JStr ''BOLT'']"
  by (simp add: matches_def MessageFilter_def truthy_def)

text \<open>
  C6, amended. For every filter whose recipient constraint is a string \<open>X\<close> that is not
  empty, and every message: when \<open>X\<close>, \<^verbatim>\<open>"ALL_AGENTS"\<close> or \<^verbatim>\<open>"ALL"\<close> is among the recipients
  the recipient check passes and the answer of \<^verbatim>\<open>matches\<close> is that of the other
  constraints; otherwise \<^verbatim>\<open>matches\<close> returns false, whatever the other constraints are.
  A constraint that is the empty string counts as unset. (The recipients are the list in
  the \<^verbatim>\<open>to\<close> field, or the field itself as the only recipient when it is not a list.)
\<close>

theorem matches_recipient:
  assumes "flt_to_agent f = Some X"
  shows "matches L f m =
     (if X = [] \<or> JStr X \<in> set (to_list m) \<or> JStr ''ALL_AGENTS'' \<in> set (to_list m)
          \<or> JStr ''ALL'' \<in> set (to_list m)
      then matches L (f\<lparr>flt_to_agent := None\<rparr>) m
      else Inr False)"
  using assms by (simp add: matches_def truthy_def split: json.split)

theorem matches_recipient_witness:
  "matches lib0 (MessageFilter (Some ''ATLAS'') None (Some ''LOW'') None)
     \<lparr> msg_id = JStr ''m1'', from_agent = JStr ''FORGE'', to = JList [JStr ''ALL_AGENTS''],
       subject = JStr ''hi'', body = JDict [], priority = JStr ''HIGH'', timestamp = JStr '''',
       filepath = ''m1.json'' \<rparr>
   = matches lib0 (MessageFilter None None (Some ''LOW'') None)
     \<lparr> msg_id = JStr ''m1'', from_agent = JStr ''FORGE'', to = JList [JStr ''ALL_AGENTS''],
       subject = JStr ''hi'', body = JDict [], priority = JStr ''HIGH'', timestamp = JStr '''',
       filepath = ''m1.json'' \<rparr>
   \<and> matches lib0 (MessageFilter (Some ''ATLAS'') None None None)
     \<lparr> msg_id = JStr ''m1'', from_agent = JStr ''FORGE'', to = JList [JStr ''BOLT''],
       subject = JStr ''hi'', body = JDict [], priority = JStr ''HIGH'', timestamp = JStr '''',
       filepath = ''m1.json'' \<rparr> = Inr False"
  using matches_recipient [of "MessageFilter (Some ''ATLAS'') None (Some ''LOW'') None" "''ATLAS''" lib0
     "\<lparr> msg_id = JStr ''m1'', from_agent = JStr ''FORGE'', to = JList [JStr ''ALL_AGENTS''],
       subject = JStr ''hi'', body = JDict [], priority = JStr ''HIGH'', timestamp = JStr '''',
       filepath = ''m1.json'' \<rparr>"]
    matches_recipient [of "MessageFilter (Some ''ATLAS'') None None None" "''ATLAS''" lib0
     "\<lparr> msg_id = JStr ''m1'', from_agent = JStr ''FORGE'', to = JList [JStr ''BOLT''],
       subject = JStr ''hi'', body = JDict [], priority = JStr ''HIGH'', timestamp = JStr '''',
       filepath = ''m1.json'' \<rparr>"]
  by (simp add: MessageFilter_def to_list_def)

section \<open>The keyword check\<close>

text \<open>
  C7, as the claim states it, fails: the source puts a space between the subject and
  the serialized body. For the subject \<^verbatim>\<open>"Alert"\<close>, the body \<^verbatim>\<open>{}\<close> and the only keyword
  \<^verbatim>\<open>"alert{}"\<close>, the keyword is (all of) the lowercased concatenation of subject and
  serialized body, and \<^verbatim>\<open>matches\<close> returns false.
\<close>

theorem matches_keyword_across_separator:
  "matches lib0 (MessageFilter None None None (Some [''alert{}'']))
     \<lparr> msg_id = JStr ''m1'', from_agent = JStr ''FORGE'', to = JList [JStr ''BOLT''],
       subject = JStr ''Alert'', body = JDict [], priority = JStr ''HIGH'', timestamp = JStr '''',
       filepath = ''m1.json'' \<rparr> = Inr False
   \<and> lower lib0 (''Alert'' @ json_dumps lib0 (JDict [])) = ''alert{}''
   \<and> lower lib0 ''alert{}'' = ''alert{}''
   \<and> str_contains (lower lib0 (''Alert'' @ json_dumps lib0 (JDict []))) (lower lib0 ''alert{}'')"
  by code_simp

text \<open>
  C7, amended. For every filter whose keyword list is not empty and every message whose
  subject is a string: the keyword check passes, and \<^verbatim>\<open>matches\<close> answers as the other
  constraints do, if and only if some keyword, lowercased, is a substring of the
  lowercased text made of the subject, one space, and the serialization of the body
  (\<^verbatim>\<open>json.dumps\<close> of an object, \<^verbatim>\<open>str\<close> of anything else); otherwise \<^verbatim>\<open>matches\<close> returns
  false. The test is on substrings, not on words.
\<close>

theorem matches_keywords:
  assumes "flt_keywords f \<noteq> []" and "subject m = JStr s"
  shows "matches L f m =
     (if \<exists>kw \<in> set (flt_keywords f). \<exists>pre post.
            lower L (s @ '' '' @ body_text L m) = pre @ lower L kw @ post
      then matches L (f\<lparr>flt_keywords := []\<rparr>) m
      else Inr False)"
  using assms by (simp add: matches_def list_ex_iff str_contains_iff Let_def)

theorem matches_keywords_witness:
  "matches lib0 (MessageFilter None None None (Some [''urgent'', ''system'']))
     \<lparr> msg_id = JStr ''test_msg_002'', from_agent = JStr ''FORGE'',
       to = JList [JStr ''ATLAS'', JStr ''BOLT''], subject = JStr ''Urgent: System Down'',
       body = JDict [(''message'', JStr ''Database connection failed'')],
       priority = JStr ''CRITICAL'', timestamp = JStr ''2026-01-18T12:00:00'',
       filepath = ''test_msg_002.json'' \<rparr> = Inr True"
  (is "matches lib0 ?F ?M = _")
proof -
  have kw: "flt_keywords ?F \<noteq> []"
    by (simp add: MessageFilter_def)
  have sub: "subject ?M = JStr ''Urgent: System Down''"
    by simp
  have c: "\<exists>kw \<in> set (flt_keywords ?F). \<exists>pre post.
             lower lib0 (''Urgent: System Down'' @ '' '' @ body_text lib0 ?M)
               = pre @ lower lib0 kw @ post"
    unfolding str_contains_iff [symmetric] by code_simp
  have r: "matches lib0 (?F\<lparr>flt_keywords := []\<rparr>) ?M = Inr True"
    by code_simp
  from matches_keywords [OF kw sub, of lib0] c r show ?thesis
    by (simp only: if_True)
qed

section \<open>Facts about dispatch and the loop\<close>

lemma calls_of_append: "calls_of (xs @ ys) = calls_of xs @ calls_of ys"
  by (induction xs rule: calls_of.induct) simp_all

lemma register_all_callbacks: "callbacks (register_all w hs) = callbacks w @ hs"
  by (induction hs arbitrary: w) (simp_all add: register_callback_def)

lemma register_all_frame:
  "register_all w hs = w\<lparr>callbacks := callbacks w @ hs\<rparr>"
  by (induction hs arbitrary: w) (simp_all add: register_callback_def)

lemma run_callbacks_contained:
  assumes "\<forall>h \<in> set hs. \<forall>e. hbody h m = Some e \<longrightarrow> is_Exception e \<and> hname h \<noteq> None"
  shows "run_callbacks hs m =
     (concat (map (\<lambda>h. Call (hname h) m #
                     (case hbody h m of None \<Rightarrow> [] | Some e \<Rightarrow> (case hname h of Some n \<Rightarrow> [Log ERROR (Callback_error n e)] | None \<Rightarrow> [])))
                hs), None)"
  using assms by (induction hs) (auto split: option.splits)

lemma calls_of_dispatch:
  "calls_of (concat (map (\<lambda>h. Call (hname h) m #
                     (case hbody h m of None \<Rightarrow> [] | Some e \<Rightarrow> (case hname h of Some n \<Rightarrow> [Log ERROR (Callback_error n e)] | None \<Rightarrow> [])))
                hs)) = map (\<lambda>h. (hname h, m)) hs"
  by (induction hs) (auto simp: calls_of_append split: option.splits)

lemma process_body_seen:
  "process_body L (w\<lparr>seen_messages := s\<rparr>) fs p = process_body L w fs p"
  by (simp add: process_body_def cong: sum.case_cong if_cong)

lemma process_message_seen [simp]:
  "process_message L (w\<lparr>seen_messages := s\<rparr>) fs p = process_message L w fs p"
  by (simp add: process_message_def process_body_seen)

lemma process_queue_seen [simp]:
  "process_queue L (w\<lparr>seen_messages := s\<rparr>) fs ps = process_queue L w fs ps"
  by (induction ps) simp_all

lemma process_message_dispatch:
  assumes parse: "from_file fs p = Inr m"
    and pass: "message_filter w = None \<or> (\<exists>f. message_filter w = Some f \<and> matches L f m = Inr True)"
    and exn: "\<forall>h \<in> set (callbacks w). \<forall>e. hbody h m = Some e \<longrightarrow> is_Exception e \<and> hname h \<noteq> None"
  shows "process_message L w fs p =
           (Log INFO (NEW_MESSAGE (msg_id m) (from_agent m) (subject m)) #
            concat (map (\<lambda>h. Call (hname h) m #
                          (case hbody h m of
                             None \<Rightarrow> []
                           | Some e \<Rightarrow> (case hname h of Some n \<Rightarrow> [Log ERROR (Callback_error n e)] | None \<Rightarrow> [])))
                     (callbacks w)),
            None)"
proof -
  have body: "(case message_filter w of None \<Rightarrow> Inr True | Some f \<Rightarrow> matches L f m) = Inr True"
    using pass by auto
  show ?thesis
    by (simp add: process_message_def process_body_def parse body run_callbacks_contained [OF exn])
qed

lemma process_message_malformed:
  "fs p = Malformed \<Longrightarrow>
     process_message L w fs p = ([Log ERROR (Invalid_JSON p JSONDecodeError)], None)"
  by (simp add: process_message_def process_body_def from_file_def)

lemma process_message_unreadable:
  "fs p = Unreadable n \<Longrightarrow>
     process_message L w fs p = ([Log ERROR (Error_processing p (Error n))], None)"
  by (simp add: process_message_def process_body_def from_file_def)

lemma run_append: "run L th (xs @ ys) = run L (run L th xs) ys"
  by (induction xs arbitrary: th) simp_all

lemma run_sleep:
  "length envs = k \<Longrightarrow>
     run L \<lparr> self = w, pc = after_sleep k, trace = t \<rparr> (map Advance envs)
       = \<lparr> self = w, pc = LoopTop, trace = t \<rparr>"
proof (induction envs arbitrary: k)
  case Nil
  then show ?case by (simp add: after_sleep_def)
next
  case (Cons env envs)
  then obtain j where k: "k = Suc j" and j: "length envs = j" by auto
  have "react L \<lparr> self = w, pc = after_sleep k, trace = t \<rparr> (Advance env)
          = \<lparr> self = w, pc = after_sleep j, trace = t \<rparr>"
    by (simp add: k react_def step_def after_sleep_def)
  with Cons.IH [OF j] show ?case by simp
qed

lemma step_top:
  assumes "running w" and "0 \<le> poll_interval w"
    and "watch_cycle L w env = (w', ev, None)"
  shows "step L env \<lparr> self = w, pc = LoopTop, trace = t \<rparr>
           = \<lparr> self = w', pc = after_sleep (nat (poll_interval w')), trace = t @ ev \<rparr>"
proof -
  have "poll_interval w' = poll_interval w"
    using assms(3)
    by (auto simp: watch_cycle_def detect_new_messages_def split: scan.splits prod.splits option.splits if_splits)
  then show ?thesis
    using assms by (simp add: step_def try_sleep_def)
qed

lemma stem_examples:
  "stem ''bad.json'' = ''bad''" "stem ''good.json'' = ''good''" "stem ''old.json'' = ''old''"
  "stem ''new.json'' = ''new''"
  by (simp_all add: stem_def rfind_dot_def)

section \<open>Handler isolation\<close>

text \<open>
  Handlers that are functions. When a file parses to a message that passes the filter,
  and every handler that raises is a function (it has a \<^verbatim>\<open>__name__\<close>) raising an instance of
  \<^verbatim>\<open>Exception\<close>, every registered handler is called with that message, in the order of
  registration; an exception is caught and logged right after the call that raised it,
  and the handlers after it are still called with the same message. Nothing leaves
  \<^verbatim>\<open>_process_message\<close>: the files queued after this one are processed, and the loop goes
  to its sleep and so to the next cycle. \<^verbatim>\<open>register_callback\<close> appends, so the order of the
  list is the order of registration.
\<close>

lemma handlers_isolated:
  assumes parse: "from_file fs p = Inr m"
    and pass: "message_filter w = None \<or> (\<exists>f. message_filter w = Some f \<and> matches L f m = Inr True)"
    and exn: "\<forall>h \<in> set (callbacks w). \<forall>e. hbody h m = Some e \<longrightarrow> is_Exception e \<and> hname h \<noteq> None"
  shows "process_message L w fs p =
           (Log INFO (NEW_MESSAGE (msg_id m) (from_agent m) (subject m)) #
            concat (map (\<lambda>h. Call (hname h) m #
                          (case hbody h m of
                             None \<Rightarrow> []
                           | Some e \<Rightarrow> (case hname h of Some n \<Rightarrow> [Log ERROR (Callback_error n e)] | None \<Rightarrow> [])))
                     (callbacks w)),
            None)
       \<and> calls_of (fst (process_message L w fs p)) = map (\<lambda>h. (hname h, m)) (callbacks w)
       \<and> process_queue L w fs (p # ps) =
           (fst (process_message L w fs p) @ fst (process_queue L w fs ps),
            snd (process_queue L w fs ps))
       \<and> (running w \<and> 0 \<le> poll_interval w \<and> stem p \<notin> seen_messages w \<longrightarrow>
            step L \<lparr> listing = Scan [p] None, files = fs \<rparr> \<lparr> self = w, pc = LoopTop, trace = t \<rparr> =
              \<lparr> self = w\<lparr>seen_messages := insert (stem p) (seen_messages w)\<rparr>,
                pc = after_sleep (nat (poll_interval w)),
                trace = t @ fst (process_message L w fs p) \<rparr>)
       \<and> callbacks (register_all w hs) = callbacks w @ hs"
proof -
  have body: "(case message_filter w of None \<Rightarrow> Inr True | Some f \<Rightarrow> matches L f m) = Inr True"
    using pass by auto
  have pm: "process_message L w fs p =
           (Log INFO (NEW_MESSAGE (msg_id m) (from_agent m) (subject m)) #
            concat (map (\<lambda>h. Call (hname h) m #
                          (case hbody h m of
                             None \<Rightarrow> []
                           | Some e \<Rightarrow> (case hname h of Some n \<Rightarrow> [Log ERROR (Callback_error n e)] | None \<Rightarrow> [])))
                     (callbacks w)),
            None)"
    by (simp add: process_message_def process_body_def parse body run_callbacks_contained [OF exn])
  have calls: "calls_of (fst (process_message L w fs p)) = map (\<lambda>h. (hname h, m)) (callbacks w)"
    by (simp add: pm calls_of_dispatch)
  have queue: "process_queue L w fs (p # ps) =
           (fst (process_message L w fs p) @ fst (process_queue L w fs ps),
            snd (process_queue L w fs ps))"
    by (simp add: pm split: prod.splits)
  have loop: "step L \<lparr> listing = Scan [p] None, files = fs \<rparr> \<lparr> self = w, pc = LoopTop, trace = t \<rparr> =
              \<lparr> self = w\<lparr>seen_messages := insert (stem p) (seen_messages w)\<rparr>,
                pc = after_sleep (nat (poll_interval w)),
                trace = t @ fst (process_message L w fs p) \<rparr>"
    if "running w" "0 \<le> poll_interval w" "stem p \<notin> seen_messages w"
    using that
    by (simp add: step_def watch_cycle_def detect_new_messages_def try_sleep_def pm)
  show ?thesis
    using pm calls queue loop register_all_callbacks by blast
qed

lemma handlers_isolated_example:
  "process_message lib0
      (register_all (SynapseWatcher ''inbox'' 1 None)
         [raising ''crashing_callback'' (Error ''ValueError''), returning ''normal_callback''])
      (fs_of [(''error_test_001.json'', Document (JDict [(''msg_id'', JStr ''error_test_001'')]))])
      ''error_test_001.json''
   = ([Log INFO (NEW_MESSAGE (JStr ''error_test_001'') (JStr ''UNKNOWN'') (JStr '''')),
       Call (Some ''crashing_callback'')
         \<lparr> msg_id = JStr ''error_test_001'', from_agent = JStr ''UNKNOWN'', to = JList [],
           subject = JStr '''', body = JDict [], priority = JStr ''NORMAL'', timestamp = JStr '''',
           filepath = ''error_test_001.json'' \<rparr>,
       Log ERROR (Callback_error ''crashing_callback'' (Error ''ValueError'')),
       Call (Some ''normal_callback'')
         \<lparr> msg_id = JStr ''error_test_001'', from_agent = JStr ''UNKNOWN'', to = JList [],
           subject = JStr '''', body = JDict [], priority = JStr ''NORMAL'', timestamp = JStr '''',
           filepath = ''error_test_001.json'' \<rparr>],
      None)"
  (is "process_message lib0 ?W ?FS ?P = _")
proof -
  let ?M = "\<lparr> msg_id = JStr ''error_test_001'', from_agent = JStr ''UNKNOWN'', to = JList [],
           subject = JStr '''', body = JDict [], priority = JStr ''NORMAL'', timestamp = JStr '''',
           filepath = ''error_test_001.json'' \<rparr>"
  have parse: "from_file ?FS ?P = Inr ?M"
    by (simp add: from_file_def fs_of_def dict_get_def)
  have pass: "message_filter ?W = None \<or> (\<exists>f. message_filter ?W = Some f \<and> matches lib0 f ?M = Inr True)"
    by (simp add: register_all_frame SynapseWatcher_def)
  have exn: "\<forall>h \<in> set (callbacks ?W). \<forall>e. hbody h ?M = Some e \<longrightarrow> is_Exception e \<and> hname h \<noteq> None"
    by (simp add: register_all_frame SynapseWatcher_def raising_def returning_def)
  from handlers_isolated [OF parse pass exn] show ?thesis
    by (simp add: register_all_frame SynapseWatcher_def raising_def returning_def)
qed

text \<open>
  C3 does not hold of the code for every handler: an exception raised by a handler is
  caught, but the \<^verbatim>\<open>except\<close> clause formats \<^verbatim>\<open>callback.__name__\<close> into its log line, and a
  callable that is not a function (a \<^verbatim>\<open>functools.partial\<close>, an object with \<^verbatim>\<open>__call__\<close>) has
  no such attribute. \<^verbatim>\<open>register_callback\<close> raises \<^verbatim>\<open>AttributeError\<close> for such a callable
  after it has appended it, so it stays registered. When it is registered first, a
  function \<^verbatim>\<open>normal_callback\<close> after it, and it raises \<^verbatim>\<open>ValueError\<close> on the message of
  \<^verbatim>\<open>error_test_001.json\<close>, the log line of the \<^verbatim>\<open>except\<close> clause raises \<^verbatim>\<open>AttributeError\<close>, the
  loop over the handlers ends there, the outer \<^verbatim>\<open>except Exception\<close> logs
  \<^verbatim>\<open>Error processing ...\<close>, and \<^verbatim>\<open>normal_callback\<close> is never called with the message: the
  only call of the dispatch is the one that raised.
\<close>

theorem nameless_handler_ends_dispatch:
  "register_callback (SynapseWatcher ''inbox'' 1 None) (raising_partial (Error ''ValueError''))
     = ((SynapseWatcher ''inbox'' 1 None)\<lparr>callbacks := [raising_partial (Error ''ValueError'')]\<rparr>,
        [], Some (Error ''AttributeError''))
   \<and> callbacks (register_all (SynapseWatcher ''inbox'' 1 None)
                   [raising_partial (Error ''ValueError''), returning ''normal_callback''])
     = [raising_partial (Error ''ValueError''), returning ''normal_callback'']
   \<and> process_message lib0
       (register_all (SynapseWatcher ''inbox'' 1 None)
          [raising_partial (Error ''ValueError''), returning ''normal_callback''])
       (fs_of [(''error_test_001.json'', Document (JDict [(''msg_id'', JStr ''error_test_001'')]))])
       ''error_test_001.json''
     = ([Log INFO (NEW_MESSAGE (JStr ''error_test_001'') (JStr ''UNKNOWN'') (JStr '''')),
         Call None
           \<lparr> msg_id = JStr ''error_test_001'', from_agent = JStr ''UNKNOWN'', to = JList [],
             subject = JStr '''', body = JDict [], priority = JStr ''NORMAL'', timestamp = JStr '''',
             filepath = ''error_test_001.json'' \<rparr>,
         Log ERROR (Error_processing ''error_test_001.json'' (Error ''AttributeError''))],
        None)"
  by (simp add: register_callback_def process_message_def process_body_def from_file_def fs_of_def
        dict_get_def SynapseWatcher_def raising_partial_def returning_def)

section \<open>A malformed file\<close>

text \<open>
  C8. A queued file that is not JSON makes \<^verbatim>\<open>_process_message\<close> log \<^verbatim>\<open>Invalid JSON in ...\<close>
  (the handler of \<^verbatim>\<open>json.JSONDecodeError\<close>), where any other failure to read a file logs
  \<^verbatim>\<open>Error processing ...\<close>; no handler is called and nothing is raised, so the files queued
  after it are processed and the loop sleeps and goes on. The stem of the file stays in
  the seen-set: a later cycle that lists the file again does not process it again, and a
  valid file that this later cycle finds is dispatched to every handler (the handlers
  that raise being functions that raise an instance of \<^verbatim>\<open>Exception\<close>, which the dispatch
  catches and logs).
\<close>

theorem malformed_file_skipped:
  assumes bad: "files env1 p = Malformed"
    and scan1: "listing env1 = Scan [p] None"
    and new_p: "stem p \<notin> seen_messages w"
    and live: "running w" "0 \<le> poll_interval w"
    and nap: "length naps = nat (poll_interval w)"
    and scan2: "listing env2 = Scan [p, g] None"
    and new_g: "stem g \<notin> insert (stem p) (seen_messages w)"
    and parse: "from_file (files env2) g = Inr m"
    and pass: "message_filter w = None \<or> (\<exists>f. message_filter w = Some f \<and> matches L f m = Inr True)"
    and exn: "\<forall>h \<in> set (callbacks w). \<forall>e. hbody h m = Some e \<longrightarrow> is_Exception e \<and> hname h \<noteq> None"
  shows "process_message L w (files env1) p = ([Log ERROR (Invalid_JSON p JSONDecodeError)], None)
       \<and> (\<forall>q n. files env1 q = Unreadable n \<longrightarrow>
             process_message L w (files env1) q = ([Log ERROR (Error_processing q (Error n))], None))
       \<and> process_queue L w (files env1) (p # ps) =
           (Log ERROR (Invalid_JSON p JSONDecodeError) # fst (process_queue L w (files env1) ps),
            snd (process_queue L w (files env1) ps))
       \<and> run L \<lparr> self = w, pc = LoopTop, trace = t \<rparr>
             (Advance env1 # map Advance naps @ [Advance env2]) =
           \<lparr> self = w\<lparr>seen_messages := insert (stem g) (insert (stem p) (seen_messages w))\<rparr>,
             pc = after_sleep (nat (poll_interval w)),
             trace = t @ [Log ERROR (Invalid_JSON p JSONDecodeError)]
                       @ Log INFO (NEW_MESSAGE (msg_id m) (from_agent m) (subject m)) #
                         concat (map (\<lambda>h. Call (hname h) m #
                                       (case hbody h m of
                                          None \<Rightarrow> []
                                        | Some e \<Rightarrow> (case hname h of Some n \<Rightarrow> [Log ERROR (Callback_error n e)] | None \<Rightarrow> [])))
                                  (callbacks w)) \<rparr>"
proof -
  let ?w1 = "w\<lparr>seen_messages := insert (stem p) (seen_messages w)\<rparr>"
  let ?w2 = "w\<lparr>seen_messages := insert (stem g) (insert (stem p) (seen_messages w))\<rparr>"
  let ?bad = "Log ERROR (Invalid_JSON p JSONDecodeError)"
  let ?good = "Log INFO (NEW_MESSAGE (msg_id m) (from_agent m) (subject m)) #
                 concat (map (\<lambda>h. Call (hname h) m #
                               (case hbody h m of
                                  None \<Rightarrow> []
                                | Some e \<Rightarrow> (case hname h of Some n \<Rightarrow> [Log ERROR (Callback_error n e)] | None \<Rightarrow> [])))
                          (callbacks w))"
  have pm: "process_message L w (files env1) p = ([?bad], None)"
    using bad by (rule process_message_malformed)
  have queue: "process_queue L w (files env1) (p # ps) =
           (?bad # fst (process_queue L w (files env1) ps), snd (process_queue L w (files env1) ps))"
    by (simp add: pm split: prod.splits)
  have c1: "watch_cycle L w env1 = (?w1, [?bad], None)"
    using new_p by (simp add: watch_cycle_def detect_new_messages_def scan1 pm)
  have s1: "step L env1 \<lparr> self = w, pc = LoopTop, trace = t \<rparr>
              = \<lparr> self = ?w1, pc = after_sleep (nat (poll_interval w)), trace = t @ [?bad] \<rparr>"
    using step_top [OF live c1] by simp
  have s2: "run L \<lparr> self = ?w1, pc = after_sleep (nat (poll_interval w)), trace = t @ [?bad] \<rparr>
              (map Advance naps) = \<lparr> self = ?w1, pc = LoopTop, trace = t @ [?bad] \<rparr>"
    by (rule run_sleep [OF nap])
  have pg: "process_message L w (files env2) g = (?good, None)"
    using parse pass exn by (rule process_message_dispatch)
  have c2: "watch_cycle L ?w1 env2 = (?w2, ?good, None)"
    using new_g by (simp add: watch_cycle_def detect_new_messages_def scan2 pg)
  have s3: "step L env2 \<lparr> self = ?w1, pc = LoopTop, trace = t @ [?bad] \<rparr>
              = \<lparr> self = ?w2, pc = after_sleep (nat (poll_interval w)), trace = (t @ [?bad]) @ ?good \<rparr>"
    using step_top [OF _ _ c2, of "t @ [?bad]"] live by simp
  have r: "run L \<lparr> self = w, pc = LoopTop, trace = t \<rparr>
             (Advance env1 # map Advance naps @ [Advance env2]) =
           \<lparr> self = ?w2, pc = after_sleep (nat (poll_interval w)), trace = t @ [?bad] @ ?good \<rparr>"
    by (simp add: run_append react_def s1 s2 s3)
  show ?thesis
    using pm queue r process_message_unreadable by blast
qed

theorem malformed_file_skipped_witness:
  "run lib0
     \<lparr> self = (register_all (SynapseWatcher ''inbox'' 1 None) [returning ''on_message''])\<lparr>running := True\<rparr>,
       pc = LoopTop, trace = [] \<rparr>
     [Advance \<lparr> listing = Scan [''bad.json''] None, files = fs_of [(''bad.json'', Malformed)] \<rparr>,
      Advance \<lparr> listing = Scan [''bad.json''] None, files = fs_of [(''bad.json'', Malformed)] \<rparr>,
      Advance \<lparr> listing = Scan [''bad.json'', ''good.json''] None,
                files = fs_of [(''bad.json'', Malformed),
                               (''good.json'', Document (JDict [(''msg_id'', JStr ''good'')]))] \<rparr>]
   = \<lparr> self = (register_all (SynapseWatcher ''inbox'' 1 None) [returning ''on_message''])
                 \<lparr>running := True, seen_messages := {''good'', ''bad''}\<rparr>,
       pc = Sleeping 1,
       trace = [Log ERROR (Invalid_JSON ''bad.json'' JSONDecodeError),
                Log INFO (NEW_MESSAGE (JStr ''good'') (JStr ''UNKNOWN'') (JStr '''')),
                Call (Some ''on_message'')
                  \<lparr> msg_id = JStr ''good'', from_agent = JStr ''UNKNOWN'', to = JList [],
                    subject = JStr '''', body = JDict [], priority = JStr ''NORMAL'',
                    timestamp = JStr '''', filepath = ''good.json'' \<rparr>] \<rparr>"
  (is "run lib0 \<lparr> self = ?W, pc = LoopTop, trace = [] \<rparr> [Advance ?E1, Advance ?E1, Advance ?E2] = _")
proof -
  let ?M = "\<lparr> msg_id = JStr ''good'', from_agent = JStr ''UNKNOWN'', to = JList [],
                    subject = JStr '''', body = JDict [], priority = JStr ''NORMAL'',
                    timestamp = JStr '''', filepath = ''good.json'' \<rparr>"
  have W: "?W = \<lparr> synapse_path = ''inbox'', poll_interval = 1, message_filter = None,
                   callbacks = [returning ''on_message''], seen_messages = {}, running = True \<rparr>"
    by (simp add: register_all_frame SynapseWatcher_def)
  have bad: "files ?E1 ''bad.json'' = Malformed" by (simp add: fs_of_def)
  have scan1: "listing ?E1 = Scan [''bad.json''] None" by simp
  have new_p: "stem ''bad.json'' \<notin> seen_messages ?W" unfolding W by simp
  have live: "running ?W" "0 \<le> poll_interval ?W" unfolding W by simp_all
  have nap: "length [?E1] = nat (poll_interval ?W)" unfolding W by simp
  have scan2: "listing ?E2 = Scan [''bad.json'', ''good.json''] None" by simp
  have new_g: "stem ''good.json'' \<notin> insert (stem ''bad.json'') (seen_messages ?W)"
    unfolding W by (simp add: stem_examples)
  have parse: "from_file (files ?E2) ''good.json'' = Inr ?M"
    by (simp add: from_file_def fs_of_def dict_get_def)
  have pass: "message_filter ?W = None \<or> (\<exists>f. message_filter ?W = Some f \<and> matches lib0 f ?M = Inr True)"
    unfolding W by simp
  have exn: "\<forall>h \<in> set (callbacks ?W). \<forall>e. hbody h ?M = Some e \<longrightarrow> is_Exception e \<and> hname h \<noteq> None"
    unfolding W by (simp add: returning_def)
  from malformed_file_skipped [OF bad scan1 new_p live nap scan2 new_g parse pass exn, of "[]" "[]"]
  show ?thesis
    unfolding W by (simp add: stem_examples returning_def after_sleep_def)
qed

section \<open>Stopping\<close>

lemma run_ticks:
  "j \<le> k \<Longrightarrow> length envs = j \<Longrightarrow>
     run L \<lparr> self = w, pc = after_sleep k, trace = t \<rparr> (map Advance envs)
       = \<lparr> self = w, pc = after_sleep (k - j), trace = t \<rparr>"
proof (induction envs arbitrary: k j)
  case Nil
  then show ?case by simp
next
  case (Cons env envs)
  then obtain j' k' where j: "j = Suc j'" and k: "k = Suc k'" and le: "j' \<le> k'"
    and len: "length envs = j'"
    by (cases j; cases k) auto
  have "react L \<lparr> self = w, pc = after_sleep k, trace = t \<rparr> (Advance env)
          = \<lparr> self = w, pc = after_sleep k', trace = t \<rparr>"
    by (simp add: k react_def step_def after_sleep_def)
  with Cons.IH [OF le len] show ?case by (simp add: j k)
qed

lemma react_Stop:
  "react L th Stop =
     th\<lparr>self := (self th)\<lparr>running := False\<rparr>, trace := trace th @ [Log INFO Stop_requested]\<rparr>"
  by (simp add: react_def stop_def)

lemma watch_cycle_frame:
  assumes "watch_cycle L w env = (w', ev, r)"
  shows "w' = w\<lparr>seen_messages := seen_messages w'\<rparr>"
  using assms
  by (auto simp: watch_cycle_def detect_new_messages_def
           split: scan.splits prod.splits option.splits if_splits)

lemma sleep_inv_start: "sleep_inv (poll_interval w) (start w sc)"
  by (auto simp: sleep_inv_def start_def finish_def Let_def split: scan.splits option.splits)

lemma sleep_inv_after:
  "poll_interval w = n \<Longrightarrow> 0 \<le> n \<Longrightarrow>
     sleep_inv n \<lparr> self = w, pc = after_sleep (nat n), trace = t \<rparr>"
  by (auto simp: sleep_inv_def after_sleep_def)

lemma sleep_inv_finish: "poll_interval w = n \<Longrightarrow> sleep_inv n (finish w t r)"
  by (simp add: sleep_inv_def finish_def)

lemma sleep_inv_handler_sleep:
  "poll_interval w = n \<Longrightarrow> sleep_inv n (handler_sleep w t)"
  by (auto simp: handler_sleep_def sleep_inv_finish sleep_inv_after)

lemma sleep_inv_try_sleep:
  "poll_interval w = n \<Longrightarrow> sleep_inv n (try_sleep w t)"
  by (auto simp: try_sleep_def sleep_inv_handler_sleep sleep_inv_after)

lemma sleep_inv_step:
  assumes "sleep_inv n th"
  shows "sleep_inv n (step L env th)"
proof (cases "pc th")
  case LoopTop
  show ?thesis
  proof (cases "running (self th)")
    case False
    from assms have "poll_interval (self th) = n" by (simp add: sleep_inv_def)
    with LoopTop False show ?thesis
      by (simp add: step_def sleep_inv_finish)
  next
    case True
    obtain w' ev r where c: "watch_cycle L (self th) env = (w', ev, r)"
      by (cases "watch_cycle L (self th) env") auto
    from watch_cycle_frame [OF c] have "poll_interval w' = poll_interval (self th)"
      by (metis watcher.select_convs(2) watcher.surjective watcher.update_convs(5))
    with assms have p: "poll_interval w' = n" by (simp add: sleep_inv_def)
    show ?thesis
      using LoopTop True c p
      by (auto simp: step_def sleep_inv_finish sleep_inv_handler_sleep sleep_inv_try_sleep
               split: option.splits)
  qed
next
  case (Sleeping k)
  with assms show ?thesis
    by (auto simp: step_def sleep_inv_def after_sleep_def)
next
  case (Returned r)
  with assms show ?thesis by (simp add: step_def)
qed

lemma sleep_inv_react: "sleep_inv n th \<Longrightarrow> sleep_inv n (react L th i)"
proof (cases i)
  case (Advance env)
  assume "sleep_inv n th"
  then show ?thesis by (simp add: Advance react_def sleep_inv_step)
next
  case Stop
  assume "sleep_inv n th"
  then show ?thesis by (simp add: Stop react_def stop_def sleep_inv_def)
qed

lemma sleep_inv_run: "sleep_inv n th \<Longrightarrow> sleep_inv n (run L th is)"
  by (induction "is" arbitrary: th) (simp_all add: sleep_inv_react)

text \<open>
  C9, as the claim states it, fails: \<^verbatim>\<open>stop()\<close> only lowers the flag, and the flag is read
  nowhere but in the loop condition. A watcher with a poll interval of three ticks goes
  to sleep after its first cycle; \<^verbatim>\<open>stop()\<close> is called; one tick later the flag is down and
  the thread is still inside \<^verbatim>\<open>time.sleep\<close>, with two ticks to go.
\<close>

theorem stop_leaves_thread_asleep:
  "pc (run lib0 (start (SynapseWatcher ''inbox'' 3 None) (Scan [] None))
          [Advance \<lparr> listing = Scan [] None, files = fs_of [] \<rparr>,
           Stop,
           Advance \<lparr> listing = Scan [] None, files = fs_of [] \<rparr>]) = Sleeping 2
   \<and> \<not> running (self (run lib0 (start (SynapseWatcher ''inbox'' 3 None) (Scan [] None))
          [Advance \<lparr> listing = Scan [] None, files = fs_of [] \<rparr>,
           Stop,
           Advance \<lparr> listing = Scan [] None, files = fs_of [] \<rparr>]))"
  by (simp add: start_def react_def step_def watch_cycle_def detect_new_messages_def
        try_sleep_def after_sleep_def stop_def SynapseWatcher_def)

text \<open>
  C9, amended. A stop request only lowers the running flag, which the loop reads at the
  top of each cycle and nowhere else. When \<^verbatim>\<open>stop()\<close> is called while the loop thread
  sleeps with \<open>k\<close> ticks left, the sleep is not interrupted: after each of the next \<open>j < k\<close>
  ticks the thread is still asleep; when the sleep is over the loop condition finds the
  flag down and \<^verbatim>\<open>start()\<close> returns, with no further scan and no further dispatch. What is
  left of the sleep is at most one poll interval, which bounds the delay.
\<close>

theorem stop_during_sleep:
  assumes reach: "th = run L (start w sc) inputs"
    and asleep: "pc th = Sleeping k"
    and naps: "length envs = k"
  shows "int k \<le> poll_interval w
       \<and> (\<forall>j < k. pc (run L th (Stop # map Advance (take j envs))) = Sleeping (k - j))
       \<and> run L th (Stop # map Advance envs @ [Advance env]) =
           \<lparr> self = (self th)\<lparr>running := False\<rparr>, pc = Returned None,
             trace = trace th @ [Log INFO Stop_requested, Log INFO Stopped_msg] \<rparr>"
proof -
  have inv: "sleep_inv (poll_interval w) th"
    unfolding reach by (rule sleep_inv_run [OF sleep_inv_start])
  with asleep have k: "1 \<le> k" "int k \<le> poll_interval w"
    by (auto simp: sleep_inv_def)
  let ?w = "(self th)\<lparr>running := False\<rparr>"
  let ?t = "trace th @ [Log INFO Stop_requested]"
  have stopped: "react L th Stop = \<lparr> self = ?w, pc = after_sleep k, trace = ?t \<rparr>"
    using asleep k(1) by (cases th) (simp add: react_Stop after_sleep_def)
  have ticks: "run L th (Stop # map Advance es) = \<lparr> self = ?w, pc = after_sleep (k - length es), trace = ?t \<rparr>"
    if "length es \<le> k" for es
    using run_ticks [OF that refl, of L ?w ?t] by (simp add: stopped)
  have still: "pc (run L th (Stop # map Advance (take j envs))) = Sleeping (k - j)" if "j < k" for j
    using ticks [of "take j envs"] that naps by (simp add: after_sleep_def)
  have top: "run L th (Stop # map Advance envs) = \<lparr> self = ?w, pc = LoopTop, trace = ?t \<rparr>"
    using ticks [of envs] naps by (simp add: after_sleep_def)
  have "run L th (Stop # map Advance envs @ [Advance env])
          = step L env \<lparr> self = ?w, pc = LoopTop, trace = ?t \<rparr>"
    using run_append [of L th "Stop # map Advance envs" "[Advance env]"] top
    by (simp add: react_def)
  also have "\<dots> = \<lparr> self = ?w, pc = Returned None,
                    trace = trace th @ [Log INFO Stop_requested, Log INFO Stopped_msg] \<rparr>"
    by (simp add: step_def finish_def)
  finally show ?thesis
    using k(2) still by blast
qed

theorem stop_during_sleep_witness:
  "int 3 \<le> poll_interval (SynapseWatcher ''inbox'' 3 None)
   \<and> pc (run lib0
           (run lib0 (start (SynapseWatcher ''inbox'' 3 None) (Scan [] None))
              [Advance \<lparr> listing = Scan [] None, files = fs_of [] \<rparr>])
           [Stop, Advance \<lparr> listing = Scan [] None, files = fs_of [] \<rparr>,
            Advance \<lparr> listing = Scan [] None, files = fs_of [] \<rparr>]) = Sleeping 1
   \<and> pc (run lib0
           (run lib0 (start (SynapseWatcher ''inbox'' 3 None) (Scan [] None))
              [Advance \<lparr> listing = Scan [] None, files = fs_of [] \<rparr>])
           [Stop, Advance \<lparr> listing = Scan [] None, files = fs_of [] \<rparr>,
            Advance \<lparr> listing = Scan [] None, files = fs_of [] \<rparr>,
            Advance \<lparr> listing = Scan [] None, files = fs_of [] \<rparr>,
            Advance \<lparr> listing = Scan [] None, files = fs_of [] \<rparr>]) = Returned None"
  (is "_ \<and> pc (run lib0 ?TH [Stop, Advance ?E, Advance ?E]) = _ \<and> _")
proof -
  have asleep: "pc ?TH = Sleeping 3"
    by (simp add: start_def react_def step_def watch_cycle_def detect_new_messages_def
          try_sleep_def after_sleep_def SynapseWatcher_def)
  have len: "length [?E, ?E, ?E] = 3" by simp
  note t = stop_during_sleep [OF refl asleep len, of ?E]
  from t have a: "int 3 \<le> poll_interval (SynapseWatcher ''inbox'' 3 None)" by blast
  from t have all: "\<forall>j<3. pc (run lib0 ?TH (Stop # map Advance (take j [?E, ?E, ?E]))) = Sleeping (3 - j)"
    by blast
  have "(2::nat) < 3" by simp
  with all have "pc (run lib0 ?TH (Stop # map Advance (take 2 [?E, ?E, ?E]))) = Sleeping (3 - 2)"
    by blast
  moreover have "take 2 [?E, ?E, ?E] = [?E, ?E]" by simp
  moreover have "(3::nat) - 2 = 1" by simp
  ultimately have b: "pc (run lib0 ?TH [Stop, Advance ?E, Advance ?E]) = Sleeping 1"
    by (simp only: list.map)
  from t have "pc (run lib0 ?TH (Stop # map Advance [?E, ?E, ?E] @ [Advance ?E])) = Returned None"
    by simp
  then have c: "pc (run lib0 ?TH [Stop, Advance ?E, Advance ?E, Advance ?E, Advance ?E]) = Returned None"
    by simp
  from a b c show ?thesis by blast
qed

section \<open>Facts about detection and the calls of a run\<close>

lemma mark_existing_eq: "mark_existing seen ps = seen \<union> stem ` set ps"
  by (induction ps arbitrary: seen) auto

lemma detect_loop_props:
  "detect_loop seen ps = (new, seen') \<Longrightarrow>
     seen' = seen \<union> stem ` set ps \<and> distinct (map stem new) \<and> set new \<subseteq> set ps
     \<and> stem ` set new = stem ` set ps - seen"
proof (induction ps arbitrary: seen new seen')
  case Nil
  then show ?case by simp
next
  case (Cons p ps)
  show ?case
  proof (cases "stem p \<in> seen")
    case True
    with Cons.prems have "detect_loop seen ps = (new, seen')" by simp
    from Cons.IH [OF this] True show ?thesis by auto
  next
    case False
    obtain new1 seen1 where d: "detect_loop (insert (stem p) seen) ps = (new1, seen1)"
      by (cases "detect_loop (insert (stem p) seen) ps") auto
    with Cons.prems False have eq: "new = p # new1" "seen' = seen1" by simp_all
    from Cons.IH [OF d] have ih:
      "seen1 = insert (stem p) seen \<union> stem ` set ps" "distinct (map stem new1)"
      "set new1 \<subseteq> set ps" "stem ` set new1 = stem ` set ps - insert (stem p) seen"
      by simp_all
    have "stem p \<notin> stem ` set new1" using ih(4) by blast
    then have "distinct (map stem new)" using ih(2) by (simp add: eq)
    moreover have "seen' = seen \<union> stem ` set (p # ps)" using ih(1) by (auto simp: eq)
    moreover have "set new \<subseteq> set (p # ps)" using ih(3) by (auto simp: eq)
    moreover have "stem ` set new = stem ` set (p # ps) - seen"
      using ih(4) False by (auto simp: eq)
    ultimately show ?thesis by blast
  qed
qed

lemma run_callbacks_calls:
  "\<exists>n. calls_of (fst (run_callbacks hs m)) = map (\<lambda>h. (hname h, m)) (take n hs)"
proof (induction hs)
  case Nil
  then show ?case by simp
next
  case (Cons h hs)
  then obtain n where n: "calls_of (fst (run_callbacks hs m)) = map (\<lambda>h. (hname h, m)) (take n hs)"
    by blast
  show ?case
  proof (cases "\<exists>e. hbody h m = Some e \<and> (\<not> is_Exception e \<or> hname h = None)")
    case True
    then have "calls_of (fst (run_callbacks (h # hs) m)) = map (\<lambda>h. (hname h, m)) (take 1 (h # hs))"
      by auto
    then show ?thesis by blast
  next
    case False
    then have "calls_of (fst (run_callbacks (h # hs) m)) = map (\<lambda>h. (hname h, m)) (take (Suc n) (h # hs))"
      using n by (auto split: option.splits prod.splits)
    then show ?thesis by blast
  qed
qed

lemma from_file_filepath: "from_file fs p = Inr m \<Longrightarrow> filepath m = p"
  by (auto simp: from_file_def split: sum.splits json.splits)

lemma process_body_calls:
  "calls_of (fst (process_body L w fs p)) = []
   \<or> (\<exists>m n. filepath m = p
         \<and> calls_of (fst (process_body L w fs p)) = map (\<lambda>h. (hname h, m)) (take n (callbacks w)))"
proof (cases "from_file fs p")
  case (Inl e)
  then show ?thesis by (simp add: process_body_def)
next
  case (Inr m)
  then have fp: "filepath m = p" by (rule from_file_filepath)
  obtain n where n: "calls_of (fst (run_callbacks (callbacks w) m))
                       = map (\<lambda>h. (hname h, m)) (take n (callbacks w))"
    using run_callbacks_calls by blast
  show ?thesis
  proof (cases "(case message_filter w of None \<Rightarrow> Inr True | Some f \<Rightarrow> matches L f m)")
    case (Inl e)
    then show ?thesis by (simp add: process_body_def \<open>from_file fs p = Inr m\<close>)
  next
    case (Inr ok)
    show ?thesis
    proof (cases ok)
      case True
      with Inr have "calls_of (fst (process_body L w fs p))
                       = map (\<lambda>h. (hname h, m)) (take n (callbacks w))"
        using n
        by (cases "run_callbacks (callbacks w) m")
           (simp add: process_body_def \<open>from_file fs p = Inr m\<close>)
      with fp show ?thesis by blast
    next
      case False
      with Inr show ?thesis by (simp add: process_body_def \<open>from_file fs p = Inr m\<close>)
    qed
  qed
qed

lemma process_message_calls_body:
  "calls_of (fst (process_message L w fs p)) = calls_of (fst (process_body L w fs p))"
  by (auto simp: process_message_def calls_of_append split: prod.splits option.splits)

lemma process_message_calls:
  "calls_of (fst (process_message L w fs p)) = []
   \<or> (\<exists>m n. filepath m = p
         \<and> calls_of (fst (process_message L w fs p)) = map (\<lambda>h. (hname h, m)) (take n (callbacks w)))"
  using process_body_calls [of L w fs p] by (simp add: process_message_calls_body)

lemma calls_for_append: "calls_for s (xs @ ys) = calls_for s xs @ calls_for s ys"
  by (simp add: calls_for_def calls_of_append)

lemma calls_for_process_message:
  "calls_for s (fst (process_message L w fs p)) =
     (if s = stem p then calls_of (fst (process_message L w fs p)) else [])"
  using process_message_calls [of L w fs p]
  by (auto simp: calls_for_def filter_map comp_def)

lemma process_queue_calls:
  assumes "distinct (map stem ps)"
  shows "(s \<notin> stem ` set ps \<longrightarrow> calls_for s (fst (process_queue L w fs ps)) = [])
       \<and> (\<exists>m n. calls_for s (fst (process_queue L w fs ps))
                   = map (\<lambda>h. (hname h, m)) (take n (callbacks w)))"
  using assms
proof (induction ps)
  case Nil
  have "calls_for s [] = map (\<lambda>h. (hname h, undefined)) (take 0 (callbacks w))"
    by (simp add: calls_for_def)
  then show ?case by (auto simp: calls_for_def)
next
  case (Cons p ps)
  then have ih: "s \<notin> stem ` set ps \<longrightarrow> calls_for s (fst (process_queue L w fs ps)) = []"
    and ih2: "\<exists>m n. calls_for s (fst (process_queue L w fs ps))
                   = map (\<lambda>h. (hname h, m)) (take n (callbacks w))"
    and np: "stem p \<notin> stem ` set ps"
    by auto
  obtain ev r where pm: "process_message L w fs p = (ev, r)"
    by (cases "process_message L w fs p") auto
  have here: "calls_for s ev = (if s = stem p then calls_of ev else [])"
    using calls_for_process_message [of s L w fs p] by (simp add: pm)
  have batch: "\<exists>m n. calls_of ev = map (\<lambda>h. (hname h, m)) (take n (callbacks w))"
  proof -
    from process_message_calls [of L w fs p]
    consider "calls_of ev = []"
      | m n where "calls_of ev = map (\<lambda>h. (hname h, m)) (take n (callbacks w))"
      by (auto simp: pm)
    then show ?thesis
    proof cases
      case 1
      then have "calls_of ev = map (\<lambda>h. (hname h, undefined)) (take 0 (callbacks w))" by simp
      then show ?thesis by blast
    next
      case 2
      then show ?thesis by blast
    qed
  qed
  show ?case
  proof (cases r)
    case (Some e)
    then have q: "fst (process_queue L w fs (p # ps)) = ev" by (simp add: pm)
    show ?thesis
      unfolding q using here batch np by (cases "s = stem p") auto
  next
    case None
    then have q: "fst (process_queue L w fs (p # ps)) = ev @ fst (process_queue L w fs ps)"
      by (simp add: pm split: prod.splits)
    show ?thesis
    proof (cases "s = stem p")
      case True
      with np ih have "calls_for s (fst (process_queue L w fs ps)) = []" by simp
      with True here batch show ?thesis
        unfolding q by (auto simp: calls_for_append)
    next
      case False
      with here ih ih2 show ?thesis
        unfolding q by (auto simp: calls_for_append)
    qed
  qed
qed

lemma calls_for_Nil [simp]: "calls_for s [] = []"
  by (simp add: calls_for_def)

lemma empty_batch: "[] = map (\<lambda>h. (hname h, m)) (take 0 hs)"
  by simp

lemma watch_cycle_calls:
  assumes "watch_cycle L w env = (w', ev, r)"
  shows "seen_messages w \<subseteq> seen_messages w' \<and> callbacks w' = callbacks w
       \<and> (s \<in> seen_messages w \<longrightarrow> calls_for s ev = [])
       \<and> (s \<notin> seen_messages w' \<longrightarrow> calls_for s ev = [])
       \<and> (\<exists>m n. calls_for s ev = map (\<lambda>h. (hname h, m)) (take n (callbacks w)))"
proof -
  obtain ps r0 where sc: "listing env = Scan ps r0" by (cases "listing env") auto
  obtain new seen' where d: "detect_loop (seen_messages w) ps = (new, seen')"
    by (cases "detect_loop (seen_messages w) ps") auto
  note p = detect_loop_props [OF d]
  let ?w = "w\<lparr>seen_messages := seen'\<rparr>"
  have w': "w' = ?w"
    using assms by (auto simp: watch_cycle_def detect_new_messages_def sc d split: option.splits prod.splits if_splits)
  from p have dist: "distinct (map stem new)" by simp
  note q = process_queue_calls [OF dist, of s L ?w "files env"]
  have q1: "s \<notin> stem ` set new \<Longrightarrow> calls_for s (fst (process_queue L ?w (files env) new)) = []"
    using q by blast
  obtain m n where q2: "calls_for s (fst (process_queue L ?w (files env) new))
                          = map (\<lambda>h. (hname h, m)) (take n (callbacks w))"
    using q by auto
  have ev: "calls_for s ev = [] \<or> calls_for s ev = calls_for s (fst (process_queue L ?w (files env) new))"
    using assms
    by (auto simp: watch_cycle_def detect_new_messages_def sc d calls_for_append calls_for_def
             split: option.splits prod.splits if_splits)
  have a: "seen_messages w \<subseteq> seen_messages w'" using p by (auto simp: w')
  have b: "callbacks w' = callbacks w" by (simp add: w')
  have c: "calls_for s ev = []" if "s \<in> seen_messages w"
  proof -
    from that p have "s \<notin> stem ` set new" by blast
    with q1 ev show ?thesis by auto
  qed
  have e: "calls_for s ev = []" if "s \<notin> seen_messages w'"
  proof -
    from that p have "s \<notin> stem ` set new" by (auto simp: w')
    with q1 ev show ?thesis by auto
  qed
  have f: "\<exists>m n. calls_for s ev = map (\<lambda>h. (hname h, m)) (take n (callbacks w))"
    using ev q2 empty_batch [of m "callbacks w"] by metis
  from a b c e f show ?thesis by blast
qed

lemma step_top_shape:
  assumes "pc th = LoopTop" "running (self th)" "watch_cycle L (self th) env = (w', ev, r)"
  shows "\<exists>logs. trace (step L env th) = trace th @ ev @ logs \<and> calls_of logs = []
           \<and> seen_messages (self (step L env th)) = seen_messages w'
           \<and> callbacks (self (step L env th)) = callbacks w'"
  using assms
  by (auto simp: step_def try_sleep_def handler_sleep_def finish_def split: option.splits)

lemma react_effect:
  "\<exists>ev. trace (react L th i) = trace th @ ev
      \<and> seen_messages (self th) \<subseteq> seen_messages (self (react L th i))
      \<and> callbacks (self (react L th i)) = callbacks (self th)
      \<and> (s \<in> seen_messages (self th) \<longrightarrow> calls_for s ev = [])
      \<and> (s \<notin> seen_messages (self (react L th i)) \<longrightarrow> calls_for s ev = [])
      \<and> (\<exists>m n. calls_for s ev = map (\<lambda>h. (hname h, m)) (take n (callbacks (self th))))"
proof (cases i)
  case Stop
  have "calls_for s [Log INFO Stop_requested] = []" by (simp add: calls_for_def)
  then show ?thesis
    using empty_batch by (auto simp: Stop react_def stop_def)
next
  case (Advance env)
  show ?thesis
  proof (cases "pc th = LoopTop \<and> running (self th)")
    case True
    obtain w' ev r where c: "watch_cycle L (self th) env = (w', ev, r)"
      by (cases "watch_cycle L (self th) env") auto
    from step_top_shape [OF _ _ c] True obtain logs where
      s: "trace (step L env th) = trace th @ ev @ logs" "calls_of logs = []"
         "seen_messages (self (step L env th)) = seen_messages w'"
         "callbacks (self (step L env th)) = callbacks w'"
      by blast
    have cf: "calls_for s (ev @ logs) = calls_for s ev"
      using s(2) by (simp add: calls_for_def calls_of_append)
    from watch_cycle_calls [OF c, of s] s cf show ?thesis
      by (auto simp: Advance react_def)
  next
    case False
    have "\<exists>ev. trace (step L env th) = trace th @ ev \<and> calls_of ev = []
            \<and> seen_messages (self (step L env th)) = seen_messages (self th)
            \<and> callbacks (self (step L env th)) = callbacks (self th)"
      using False by (cases "pc th") (auto simp: step_def finish_def)
    then obtain ev where e: "trace (step L env th) = trace th @ ev" "calls_of ev = []"
            "seen_messages (self (step L env th)) = seen_messages (self th)"
            "callbacks (self (step L env th)) = callbacks (self th)"
      by blast
    from e(2) have "calls_for s ev = []" by (simp add: calls_for_def)
    with e show ?thesis
      using empty_batch by (auto simp: Advance react_def)
  qed
qed

lemma run_seen_mono: "seen_messages (self th) \<subseteq> seen_messages (self (run L th is))"
proof (induction "is" arbitrary: th)
  case Nil
  then show ?case by simp
next
  case (Cons i "is")
  from react_effect [of L th i undefined] have "seen_messages (self th) \<subseteq> seen_messages (self (react L th i))"
    by blast
  with Cons [of "react L th i"] show ?case by auto
qed

lemma run_callbacks_fixed: "callbacks (self (run L th is)) = callbacks (self th)"
proof (induction "is" arbitrary: th)
  case Nil
  then show ?case by simp
next
  case (Cons i "is")
  from react_effect [of L th i undefined] have "callbacks (self (react L th i)) = callbacks (self th)"
    by blast
  with Cons [of "react L th i"] show ?case by auto
qed

lemma seen_stem_ignored:
  "s \<in> seen_messages (self th) \<Longrightarrow> calls_for s (trace (run L th is)) = calls_for s (trace th)"
proof (induction "is" arbitrary: th)
  case Nil
  then show ?case by simp
next
  case (Cons i "is")
  from react_effect [of L th i s] Cons.prems
  have a: "calls_for s (trace (react L th i)) = calls_for s (trace th)"
    and b: "s \<in> seen_messages (self (react L th i))"
    by (auto simp: calls_for_append)
  from Cons.IH [OF b] a show ?case by simp
qed

lemma one_batch_inv:
  assumes "calls_of (trace th0) = []"
  shows "(s \<notin> seen_messages (self (run L th0 is)) \<longrightarrow> calls_for s (trace (run L th0 is)) = [])
       \<and> (\<exists>m n. calls_for s (trace (run L th0 is))
                   = map (\<lambda>h. (hname h, m)) (take n (callbacks (self th0))))"
proof (induction "is" rule: rev_induct)
  case Nil
  from assms have "calls_for s (trace th0) = []" by (simp add: calls_for_def)
  then show ?case using empty_batch by auto
next
  case (snoc i "is")
  let ?th = "run L th0 is"
  have r: "run L th0 (is @ [i]) = react L ?th i" by (simp add: run_append)
  from react_effect [of L ?th i s] obtain ev where
    e: "trace (react L ?th i) = trace ?th @ ev"
       "s \<in> seen_messages (self ?th) \<longrightarrow> calls_for s ev = []"
       "s \<notin> seen_messages (self (react L ?th i)) \<longrightarrow> calls_for s ev = []"
       "seen_messages (self ?th) \<subseteq> seen_messages (self (react L ?th i))"
       "\<exists>m n. calls_for s ev = map (\<lambda>h. (hname h, m)) (take n (callbacks (self ?th)))"
    by blast
  have cb: "callbacks (self ?th) = callbacks (self th0)" by (rule run_callbacks_fixed)
  show ?case
  proof (cases "s \<in> seen_messages (self ?th)")
    case True
    with e have "calls_for s (trace (react L ?th i)) = calls_for s (trace ?th)"
      and "s \<in> seen_messages (self (react L ?th i))"
      by (auto simp: calls_for_append)
    with snoc show ?thesis by (simp add: r)
  next
    case False
    with snoc have "calls_for s (trace ?th) = []" by blast
    then have "calls_for s (trace (react L ?th i)) = calls_for s ev"
      by (simp add: e(1) calls_for_append)
    with e(3) e(5) cb show ?thesis by (simp add: r)
  qed
qed

lemma start_seen:
  "\<not> running w \<Longrightarrow>
     seen_messages (self (start w (Scan ps r))) = seen_messages w \<union> stem ` set ps"
  by (auto simp: start_def finish_def mark_existing_eq Let_def split: option.splits)

lemma start_no_calls: "calls_of (trace (start w sc)) = []"
  by (auto simp: start_def finish_def Let_def calls_of_append split: scan.splits option.splits)

lemma start_callbacks: "callbacks (self (start w sc)) = callbacks w"
  by (auto simp: start_def finish_def Let_def split: scan.splits option.splits)

lemma start_top: "\<not> running w \<Longrightarrow> pc (start w (Scan ps None)) = LoopTop"
  by (simp add: start_def Let_def)

lemma filter_distinct_one:
  "distinct (map f xs) \<Longrightarrow> y \<in> f ` set xs \<Longrightarrow> length (filter (\<lambda>q. f q = y) xs) = 1"
proof (induction xs)
  case Nil
  then show ?case by simp
next
  case (Cons x xs)
  show ?case
  proof (cases "f x = y")
    case True
    with Cons.prems have "y \<notin> f ` set xs" by auto
    then have "filter (\<lambda>q. f q = y) xs = []" by (auto simp: filter_empty_conv)
    with True show ?thesis by simp
  next
    case False
    with Cons show ?thesis by auto
  qed
qed

lemma process_queue_all:
  "\<forall>q \<in> set ps. snd (process_message L w fs q) = None \<Longrightarrow>
     process_queue L w fs ps = (concat (map (\<lambda>q. fst (process_message L w fs q)) ps), None)"
  by (induction ps) (auto split: prod.splits option.splits)

lemmas eval_defs = start_def react_def step_def watch_cycle_def detect_new_messages_def
  process_message_def process_body_def from_file_def fs_of_def dict_get_def try_sleep_def
  after_sleep_def register_callback_def SynapseWatcher_def returning_def Let_def

section \<open>Files present at the start\<close>

text \<open>
  C2. \<^verbatim>\<open>start()\<close> on a watcher that is not running scans the inbox once before the loop
  condition is first tested: the stem of every file the scan yields is added to the
  seen-set, and no handler is called. In every run that follows, whatever the later
  scans list and however long it runs, no handler is ever called with a message read
  from one of these files.
\<close>

theorem baseline_never_dispatched:
  assumes "\<not> running w"
  shows "seen_messages (self (start w (Scan ps r))) = seen_messages w \<union> stem ` set ps
       \<and> calls_of (trace (start w (Scan ps r))) = []
       \<and> (r = None \<longrightarrow> pc (start w (Scan ps r)) = LoopTop)
       \<and> (\<forall>p \<in> set ps. calls_for (stem p) (trace (run L (start w (Scan ps r)) inputs)) = [])
       \<and> (\<forall>c \<in> set (calls_of (trace (run L (start w (Scan ps r)) inputs))). filepath (snd c) \<notin> set ps)"
proof -
  let ?init = "start w (Scan ps r)"
  let ?th = "run L ?init inputs"
  have seen: "seen_messages (self ?init) = seen_messages w \<union> stem ` set ps"
    using assms by (rule start_seen)
  have quiet: "calls_of (trace ?init) = []" by (rule start_no_calls)
  have top: "r = None \<longrightarrow> pc ?init = LoopTop"
    using assms by (auto simp: start_top)
  have none: "calls_for (stem p) (trace ?th) = []" if "p \<in> set ps" for p
  proof -
    from that seen have "stem p \<in> seen_messages (self ?init)" by simp
    then have "calls_for (stem p) (trace ?th) = calls_for (stem p) (trace ?init)"
      by (rule seen_stem_ignored)
    with quiet show ?thesis by (simp add: calls_for_def)
  qed
  have "filepath (snd c) \<notin> set ps" if c: "c \<in> set (calls_of (trace ?th))" for c
  proof
    assume "filepath (snd c) \<in> set ps"
    then have "calls_for (stem (filepath (snd c))) (trace ?th) = []" by (rule none)
    moreover from c have "c \<in> set (calls_for (stem (filepath (snd c))) (trace ?th))"
      by (simp add: calls_for_def)
    ultimately show False by simp
  qed
  with seen quiet top none show ?thesis by blast
qed

theorem baseline_never_dispatched_witness:
  "calls_for ''old''
     (trace (run lib0
        (start (register_all (SynapseWatcher ''inbox'' 1 None) [returning ''on_message''])
           (Scan [''old.json''] None))
        [Advance \<lparr> listing = Scan [''old.json'', ''new.json''] None,
                   files = fs_of [(''old.json'', Document (JDict [(''msg_id'', JStr ''old'')])),
                                  (''new.json'', Document (JDict [(''msg_id'', JStr ''new'')]))] \<rparr>])) = []
   \<and> calls_of
     (trace (run lib0
        (start (register_all (SynapseWatcher ''inbox'' 1 None) [returning ''on_message''])
           (Scan [''old.json''] None))
        [Advance \<lparr> listing = Scan [''old.json'', ''new.json''] None,
                   files = fs_of [(''old.json'', Document (JDict [(''msg_id'', JStr ''old'')])),
                                  (''new.json'', Document (JDict [(''msg_id'', JStr ''new'')]))] \<rparr>]))
     = [(Some ''on_message'',
         \<lparr> msg_id = JStr ''new'', from_agent = JStr ''UNKNOWN'', to = JList [],
           subject = JStr '''', body = JDict [], priority = JStr ''NORMAL'',
           timestamp = JStr '''', filepath = ''new.json'' \<rparr>)]"
  (is "calls_for ''old'' (trace (run lib0 (start ?W ?S) ?I)) = [] \<and> _")
proof -
  have idle: "\<not> running ?W"
    by (simp add: register_callback_def SynapseWatcher_def)
  from baseline_never_dispatched
    [OF idle, where ps = "[''old.json'']" and r = None and L = lib0 and inputs = ?I]
  have "\<forall>p \<in> set [''old.json'']. calls_for (stem p) (trace (run lib0 (start ?W ?S) ?I)) = []"
    by blast
  then have a: "calls_for ''old'' (trace (run lib0 (start ?W ?S) ?I)) = []"
    by (simp add: stem_examples)
  have b: "calls_of (trace (run lib0 (start ?W ?S) ?I))
     = [(Some ''on_message'',
         \<lparr> msg_id = JStr ''new'', from_agent = JStr ''UNKNOWN'', to = JList [],
           subject = JStr '''', body = JDict [], priority = JStr ''NORMAL'',
           timestamp = JStr '''', filepath = ''new.json'' \<rparr>)]"
    by (simp add: eval_defs stem_examples calls_of_append)
  from a b show ?thesis by blast
qed

section \<open>At most one dispatch per file\<close>

lemma react_filter_fixed: "message_filter (self (react L th i)) = message_filter (self th)"
proof (cases i)
  case Stop
  then show ?thesis by (simp add: react_def stop_def)
next
  case (Advance env)
  obtain w' ev r where c: "watch_cycle L (self th) env = (w', ev, r)"
    by (cases "watch_cycle L (self th) env") auto
  from watch_cycle_frame [OF c] have "message_filter w' = message_filter (self th)"
    by (metis watcher.select_convs(3) watcher.surjective watcher.update_convs(5))
  then show ?thesis
    by (cases "pc th")
       (auto simp: Advance react_def step_def c finish_def try_sleep_def handler_sleep_def
             split: option.splits)
qed

lemma run_filter_fixed: "message_filter (self (run L th is)) = message_filter (self th)"
  by (induction "is" arbitrary: th) (simp_all add: react_filter_fixed)

lemma start_filter: "message_filter (self (start w sc)) = message_filter w"
  by (auto simp: start_def finish_def Let_def split: scan.splits option.splits)

lemma process_message_cong:
  "message_filter w1 = message_filter w2 \<Longrightarrow> callbacks w1 = callbacks w2 \<Longrightarrow>
     process_message L w1 fs p = process_message L w2 fs p"
  by (simp add: process_message_def process_body_def cong: sum.case_cong if_cong)

lemma calls_for_queue_exact:
  "distinct (map stem new) \<Longrightarrow> p \<in> set new \<Longrightarrow>
     calls_for (stem p) (concat (map (\<lambda>q. fst (process_message L w fs q)) new))
       = calls_of (fst (process_message L w fs p))"
proof (induction new)
  case Nil
  then show ?case by simp
next
  case (Cons q new)
  have rest: "calls_for (stem p) (concat (map (\<lambda>q. fst (process_message L w fs q)) new)) = []"
    if "stem p \<notin> stem ` set new"
    using that
    by (induction new) (auto simp: calls_for_append calls_for_process_message)
  show ?case
  proof (cases "q = p")
    case True
    with Cons.prems have "stem p \<notin> stem ` set new" by auto
    with rest True show ?thesis
      by (simp add: calls_for_append calls_for_process_message)
  next
    case False
    with Cons.prems have "p \<in> set new" "stem q \<noteq> stem p" by auto
    with Cons show ?thesis
      by (simp add: calls_for_append calls_for_process_message)
  qed
qed

lemma cycle_calls_exact:
  assumes top: "pc th = LoopTop" "running (self th)"
    and scan: "listing env = Scan qs r" "r = None \<or> (\<exists>e. r = Some e \<and> is_Exception e)"
    and p: "p \<in> set qs" "stem p \<notin> seen_messages (self th)"
           "\<forall>q \<in> set qs. stem q = stem p \<longrightarrow> q = p"
    and quiet: "\<forall>q \<in> set qs. snd (process_message L (self th) (files env) q) = None"
  shows "calls_for (stem p) (trace (step L env th))
           = calls_for (stem p) (trace th) @ calls_of (fst (process_message L (self th) (files env) p))
       \<and> stem p \<in> seen_messages (self (step L env th))"
proof -
  let ?w = "self th"
  obtain new seen' where d: "detect_loop (seen_messages ?w) qs = (new, seen')"
    by (cases "detect_loop (seen_messages ?w) qs") auto
  note props = detect_loop_props [OF d]
  from props p(1,2) have "stem p \<in> stem ` set new" by blast
  then obtain q where "q \<in> set new" "stem q = stem p" by auto
  with props p(3) have pin: "p \<in> set new" by auto
  from props have dist: "distinct (map stem new)" by simp
  from props quiet have "\<forall>q \<in> set new. snd (process_message L ?w (files env) q) = None" by blast
  then have pq: "process_queue L ?w (files env) new
                   = (concat (map (\<lambda>q. fst (process_message L ?w (files env) q)) new), None)"
    by (rule process_queue_all)
  let ?ev = "concat (map (\<lambda>q. fst (process_message L ?w (files env) q)) new)"
  let ?w' = "?w\<lparr>seen_messages := seen'\<rparr>"
  obtain ev0 where c: "watch_cycle L ?w env = (?w', ev0 @ ?ev, None)" and ev0: "calls_of ev0 = []"
    using scan(2)
    by (auto simp: watch_cycle_def detect_new_messages_def scan(1) d pq)
  from step_top_shape [OF top c] obtain logs where
    s: "trace (step L env th) = trace th @ (ev0 @ ?ev) @ logs" "calls_of logs = []"
       "seen_messages (self (step L env th)) = seen_messages ?w'"
    by blast
  have "calls_for (stem p) (trace (step L env th))
          = calls_for (stem p) (trace th) @ calls_for (stem p) ?ev"
    using s(2) ev0 by (simp add: s(1) calls_for_append) (simp add: calls_for_def)
  moreover have "calls_for (stem p) ?ev = calls_of (fst (process_message L ?w (files env) p))"
    using dist pin by (rule calls_for_queue_exact)
  moreover have "stem p \<in> seen_messages (self (step L env th))"
    using props p(1) by (simp add: s(3))
  ultimately show ?thesis by simp
qed

lemma first_sight_decides:
  assumes reach: "th = run L (start w sc) inputs"
    and top: "pc th = LoopTop" "running (self th)"
    and scan: "listing env = Scan qs r" "r = None \<or> (\<exists>e. r = Some e \<and> is_Exception e)"
    and p: "p \<in> set qs" "stem p \<notin> seen_messages (self th)"
           "\<forall>q \<in> set qs. stem q = stem p \<longrightarrow> q = p"
    and quiet: "\<forall>q \<in> set qs. snd (process_message L w (files env) q) = None"
  shows "calls_for (stem p) (trace (run L th (Advance env # later)))
           = calls_of (fst (process_message L w (files env) p))"
proof -
  have same: "process_message L (self th) fs q = process_message L w fs q" for fs q
    by (rule process_message_cong)
       (simp_all add: reach run_filter_fixed start_filter run_callbacks_fixed start_callbacks)
  from one_batch_inv [OF start_no_calls, of "stem p" L w sc inputs] p(2)
  have none: "calls_for (stem p) (trace th) = []"
    by (simp add: reach)
  from quiet have quiet': "\<forall>q \<in> set qs. snd (process_message L (self th) (files env) q) = None"
    by (simp add: same)
  from cycle_calls_exact [OF top scan p quiet'] none
  have 1: "calls_for (stem p) (trace (step L env th))
             = calls_of (fst (process_message L w (files env) p))"
    and 2: "stem p \<in> seen_messages (self (step L env th))"
    by (simp_all add: same)
  from seen_stem_ignored [OF 2, of L later] 1 show ?thesis
    by (simp add: react_def)
qed

lemma process_message_no_calls:
  assumes "(\<exists>e. from_file fs p = Inl e)
         \<or> (\<exists>f m. from_file fs p = Inr m \<and> message_filter w = Some f \<and> matches L f m \<noteq> Inr True)"
  shows "calls_of (fst (process_message L w fs p)) = []"
proof -
  have "calls_of (fst (process_body L w fs p)) = []"
    using assms
    by (auto simp: process_body_def split: sum.splits)
  then show ?thesis by (simp add: process_message_calls_body)
qed

text \<open>
  C1, as the claim states it, fails: not every file added after the start gets a batch
  of handler calls. The stem of a file is put into the seen-set when the file is
  detected, before it is processed; a file that is not JSON then (or that the filter
  rejects) is dropped for good. The inbox is empty at the start; \<^verbatim>\<open>bad.json\<close> appears
  with malformed content and is still listed two cycles later, now with valid content:
  no handler is ever called.
\<close>

theorem malformed_new_file_never_dispatched:
  "calls_of
     (trace (run lib0
        (start (register_all (SynapseWatcher ''inbox'' 1 None) [returning ''on_message''])
           (Scan [] None))
        [Advance \<lparr> listing = Scan [''bad.json''] None, files = fs_of [(''bad.json'', Malformed)] \<rparr>,
         Advance \<lparr> listing = Scan [''bad.json''] None, files = fs_of [(''bad.json'', Malformed)] \<rparr>,
         Advance \<lparr> listing = Scan [''bad.json''] None,
                   files = fs_of [(''bad.json'', Document (JDict [(''msg_id'', JStr ''bad'')]))] \<rparr>])) = []
   \<and> pc (run lib0
        (start (register_all (SynapseWatcher ''inbox'' 1 None) [returning ''on_message''])
           (Scan [] None))
        [Advance \<lparr> listing = Scan [''bad.json''] None, files = fs_of [(''bad.json'', Malformed)] \<rparr>,
         Advance \<lparr> listing = Scan [''bad.json''] None, files = fs_of [(''bad.json'', Malformed)] \<rparr>,
         Advance \<lparr> listing = Scan [''bad.json''] None,
                   files = fs_of [(''bad.json'', Document (JDict [(''msg_id'', JStr ''bad'')]))] \<rparr>])
       = Sleeping 1"
  by (simp add: eval_defs stem_examples calls_of_append)

text \<open>
  C1, amended. In every run of the watcher, the handler calls for messages from files
  with one stem are the calls of at most one batch (the registered handlers in order, or
  the first few of them, all with the same message). The seen-set only grows, and once
  a stem is in it no later cycle adds a call for that stem, whatever it lists. The
  detection step returns files with pairwise different stems: no file whose stem is in
  the seen-set, exactly one file for each listed stem that is not, and none of them
  again in a later detection; each file it returns is processed once in that cycle, in
  the order of discovery (as long as nothing is raised past \<^verbatim>\<open>except Exception\<close>). The
  calls ever made for a file are those of that one processing, in the cycle that first
  lists it: the whole batch, every registered handler once and in order, when the file
  parses to an object, passes the filter, and the handlers that raise are functions
  raising an \<^verbatim>\<open>Exception\<close>; no call at all, then or later, when the file cannot be parsed
  or the filter does not let it pass.
\<close>

theorem new_file_dispatched_at_most_once:
  assumes reach: "th = run L (start w sc) inputs"
  shows "(\<exists>m n. calls_for s (trace th) = map (\<lambda>h. (hname h, m)) (take n (callbacks w)))
       \<and> seen_messages (self th) \<subseteq> seen_messages (self (run L th later))
       \<and> (s \<in> seen_messages (self th) \<longrightarrow>
            calls_for s (trace (run L th later)) = calls_for s (trace th))
       \<and> (\<forall>new seen'. detect_loop seen ps = (new, seen') \<longrightarrow>
            seen' = seen \<union> stem ` set ps
            \<and> distinct (map stem new)
            \<and> (\<forall>p \<in> set ps. stem p \<in> seen \<longrightarrow> p \<notin> set new)
            \<and> (\<forall>p \<in> set ps. stem p \<notin> seen \<longrightarrow> length (filter (\<lambda>q. stem q = stem p) new) = 1)
            \<and> (\<forall>p \<in> set new. p \<notin> set (fst (detect_loop seen' ps')))
            \<and> ((\<forall>q \<in> set new. snd (process_message L w' fs q) = None) \<longrightarrow>
                  process_queue L w' fs new
                    = (concat (map (\<lambda>q. fst (process_message L w' fs q)) new), None)))
       \<and> (pc th = LoopTop \<and> running (self th) \<and> listing env = Scan qs r
            \<and> (r = None \<or> (\<exists>e. r = Some e \<and> is_Exception e))
            \<and> p \<in> set qs \<and> stem p \<notin> seen_messages (self th)
            \<and> (\<forall>q \<in> set qs. stem q = stem p \<longrightarrow> q = p)
            \<and> (\<forall>q \<in> set qs. snd (process_message L w (files env) q) = None)
          \<longrightarrow>
            calls_for (stem p) (trace (run L th (Advance env # later)))
              = calls_of (fst (process_message L w (files env) p))
            \<and> (\<forall>m. from_file (files env) p = Inr m
                   \<and> (message_filter w = None
                        \<or> (\<exists>f. message_filter w = Some f \<and> matches L f m = Inr True))
                   \<and> (\<forall>h \<in> set (callbacks w). \<forall>e. hbody h m = Some e \<longrightarrow>
                          is_Exception e \<and> hname h \<noteq> None)
                 \<longrightarrow> calls_for (stem p) (trace (run L th (Advance env # later)))
                       = map (\<lambda>h. (hname h, m)) (callbacks w))
            \<and> ((\<exists>e. from_file (files env) p = Inl e)
                  \<or> (\<exists>f m. from_file (files env) p = Inr m \<and> message_filter w = Some f
                             \<and> matches L f m \<noteq> Inr True)
                 \<longrightarrow> calls_for (stem p) (trace (run L th (Advance env # later))) = []))"
proof -
  have a: "\<exists>m n. calls_for s (trace th) = map (\<lambda>h. (hname h, m)) (take n (callbacks w))"
    using one_batch_inv [OF start_no_calls, of s L w sc inputs]
    by (simp add: assms start_callbacks)
  have b: "seen_messages (self th) \<subseteq> seen_messages (self (run L th later))"
    by (rule run_seen_mono)
  have c: "s \<in> seen_messages (self th) \<longrightarrow>
            calls_for s (trace (run L th later)) = calls_for s (trace th)"
    by (auto intro: seen_stem_ignored)
  have d: "seen' = seen \<union> stem ` set ps
            \<and> distinct (map stem new)
            \<and> (\<forall>p \<in> set ps. stem p \<in> seen \<longrightarrow> p \<notin> set new)
            \<and> (\<forall>p \<in> set ps. stem p \<notin> seen \<longrightarrow> length (filter (\<lambda>q. stem q = stem p) new) = 1)
            \<and> (\<forall>p \<in> set new. p \<notin> set (fst (detect_loop seen' ps')))
            \<and> ((\<forall>q \<in> set new. snd (process_message L w' fs q) = None) \<longrightarrow>
                  process_queue L w' fs new
                    = (concat (map (\<lambda>q. fst (process_message L w' fs q)) new), None))"
    if dl: "detect_loop seen ps = (new, seen')" for new seen'
  proof -
    note p = detect_loop_props [OF dl]
    obtain new2 seen2 where d2: "detect_loop seen' ps' = (new2, seen2)"
      by (cases "detect_loop seen' ps'") auto
    note p2 = detect_loop_props [OF d2]
    have 1: "seen' = seen \<union> stem ` set ps" using p by simp
    have 2: "distinct (map stem new)" using p by simp
    have 3: "\<forall>p \<in> set ps. stem p \<in> seen \<longrightarrow> p \<notin> set new" using p by blast
    have 4: "\<forall>p \<in> set ps. stem p \<notin> seen \<longrightarrow> length (filter (\<lambda>q. stem q = stem p) new) = 1"
    proof (intro ballI impI)
      fix q assume "q \<in> set ps" "stem q \<notin> seen"
      with p have "stem q \<in> stem ` set new" by blast
      with 2 show "length (filter (\<lambda>x. stem x = stem q) new) = 1"
        by (rule filter_distinct_one)
    qed
    have 5: "\<forall>p \<in> set new. p \<notin> set (fst (detect_loop seen' ps'))"
    proof
      fix q assume "q \<in> set new"
      with p have "stem q \<in> seen'" by blast
      with p2 have "stem q \<notin> stem ` set new2" by blast
      then show "q \<notin> set (fst (detect_loop seen' ps'))" by (auto simp: d2)
    qed
    have 6: "(\<forall>q \<in> set new. snd (process_message L w' fs q) = None) \<longrightarrow>
                  process_queue L w' fs new
                    = (concat (map (\<lambda>q. fst (process_message L w' fs q)) new), None)"
      by (auto intro: process_queue_all)
    from 1 2 3 4 5 6 show ?thesis by blast
  qed
  have e: "calls_for (stem p) (trace (run L th (Advance env # later)))
              = calls_of (fst (process_message L w (files env) p))
            \<and> (\<forall>m. from_file (files env) p = Inr m
                   \<and> (message_filter w = None
                        \<or> (\<exists>f. message_filter w = Some f \<and> matches L f m = Inr True))
                   \<and> (\<forall>h \<in> set (callbacks w). \<forall>e. hbody h m = Some e \<longrightarrow>
                          is_Exception e \<and> hname h \<noteq> None)
                 \<longrightarrow> calls_for (stem p) (trace (run L th (Advance env # later)))
                       = map (\<lambda>h. (hname h, m)) (callbacks w))
            \<and> ((\<exists>e. from_file (files env) p = Inl e)
                  \<or> (\<exists>f m. from_file (files env) p = Inr m \<and> message_filter w = Some f
                             \<and> matches L f m \<noteq> Inr True)
                 \<longrightarrow> calls_for (stem p) (trace (run L th (Advance env # later))) = [])"
    if top: "pc th = LoopTop" "running (self th)"
      and scan: "listing env = Scan qs r" "r = None \<or> (\<exists>e. r = Some e \<and> is_Exception e)"
      and p: "p \<in> set qs" "stem p \<notin> seen_messages (self th)"
             "\<forall>q \<in> set qs. stem q = stem p \<longrightarrow> q = p"
      and quiet: "\<forall>q \<in> set qs. snd (process_message L w (files env) q) = None"
  proof -
    have 1: "calls_for (stem p) (trace (run L th (Advance env # later)))
              = calls_of (fst (process_message L w (files env) p))"
      using reach top scan p quiet by (rule first_sight_decides)
    have 2: "calls_for (stem p) (trace (run L th (Advance env # later)))
                       = map (\<lambda>h. (hname h, m)) (callbacks w)"
      if "from_file (files env) p = Inr m"
        "message_filter w = None \<or> (\<exists>f. message_filter w = Some f \<and> matches L f m = Inr True)"
        "\<forall>h \<in> set (callbacks w). \<forall>e. hbody h m = Some e \<longrightarrow> is_Exception e \<and> hname h \<noteq> None"
      for m
    proof -
      have "calls_of (fst (process_message L w (files env) p)) = map (\<lambda>h. (hname h, m)) (callbacks w)"
        using process_message_dispatch [OF that] by (simp add: calls_of_dispatch)
      with 1 show ?thesis by (simp only:)
    qed
    have 3: "calls_for (stem p) (trace (run L th (Advance env # later))) = []"
      if "(\<exists>e. from_file (files env) p = Inl e)
                  \<or> (\<exists>f m. from_file (files env) p = Inr m \<and> message_filter w = Some f
                             \<and> matches L f m \<noteq> Inr True)"
      using process_message_no_calls [OF that] 1 by (simp only:)
    from 1 2 3 show ?thesis by blast
  qed
  from a b c d e show ?thesis by blast
qed

theorem new_file_dispatched_at_most_once_witness:
  "calls_for ''new''
     (trace (run lib0
        (run lib0
           (start (register_all (SynapseWatcher ''inbox'' 1 None) [returning ''on_message''])
              (Scan [] None)) [])
        (Advance \<lparr> listing = Scan [''new.json''] None,
                   files = fs_of [(''new.json'', Document (JDict [(''msg_id'', JStr ''new'')]))] \<rparr>
         # [Advance \<lparr> listing = Scan [''new.json''] None,
                      files = fs_of [(''new.json'', Document (JDict [(''msg_id'', JStr ''new'')]))] \<rparr>,
            Advance \<lparr> listing = Scan [''new.json''] None,
                      files = fs_of [(''new.json'', Document (JDict [(''msg_id'', JStr ''new'')]))] \<rparr>])))
     = map (\<lambda>h. (hname h,
                  \<lparr> msg_id = JStr ''new'', from_agent = JStr ''UNKNOWN'', to = JList [],
                    subject = JStr '''', body = JDict [], priority = JStr ''NORMAL'',
                    timestamp = JStr '''', filepath = ''new.json'' \<rparr>))
         (callbacks (register_all (SynapseWatcher ''inbox'' 1 None) [returning ''on_message'']))
   \<and> callbacks (register_all (SynapseWatcher ''inbox'' 1 None) [returning ''on_message''])
       = [returning ''on_message'']"
  (is "calls_for ''new'' (trace (run lib0 ?TH (Advance ?E # ?later))) = map _ (callbacks ?W) \<and> _")
proof -
  let ?M = "\<lparr> msg_id = JStr ''new'', from_agent = JStr ''UNKNOWN'', to = JList [],
                    subject = JStr '''', body = JDict [], priority = JStr ''NORMAL'',
                    timestamp = JStr '''', filepath = ''new.json'' \<rparr>"
  have W: "?W = \<lparr> synapse_path = ''inbox'', poll_interval = 1, message_filter = None,
                   callbacks = [returning ''on_message''], seen_messages = {}, running = False \<rparr>"
    by (simp add: register_all_frame SynapseWatcher_def)
  have TH: "?TH = start ?W (Scan [] None)" by simp
  have top: "pc ?TH = LoopTop" "running (self ?TH)"
    unfolding TH W by (simp_all add: start_def)
  have scan: "listing ?E = Scan [''new.json''] None" by simp
  have new: "''new.json'' \<in> set [''new.json'']" "stem ''new.json'' \<notin> seen_messages (self ?TH)"
    unfolding TH W by (simp_all add: start_def)
  have uniq: "\<forall>q \<in> set [''new.json'']. stem q = stem ''new.json'' \<longrightarrow> q = ''new.json''"
    by simp
  have quiet: "\<forall>q \<in> set [''new.json'']. snd (process_message lib0 ?W (files ?E) q) = None"
    unfolding W
    by (simp add: process_message_def process_body_def from_file_def fs_of_def dict_get_def
          returning_def)
  have parse: "from_file (files ?E) ''new.json'' = Inr ?M"
    by (simp add: from_file_def fs_of_def dict_get_def)
  have pass: "message_filter ?W = None \<or> (\<exists>f. message_filter ?W = Some f \<and> matches lib0 f ?M = Inr True)"
    unfolding W by simp
  have exn: "\<forall>h \<in> set (callbacks ?W). \<forall>e. hbody h ?M = Some e \<longrightarrow> is_Exception e \<and> hname h \<noteq> None"
    unfolding W by (simp add: returning_def)
  note t = new_file_dispatched_at_most_once
    [OF refl, where L = lib0 and w = ?W and sc = "Scan [] None" and inputs = "[]"
       and env = ?E and qs = "[''new.json'']" and r = None and p = "''new.json''" and later = ?later]
  from t top scan new uniq quiet
  have "\<forall>m. from_file (files ?E) ''new.json'' = Inr m
            \<and> (message_filter ?W = None \<or> (\<exists>f. message_filter ?W = Some f \<and> matches lib0 f m = Inr True))
            \<and> (\<forall>h \<in> set (callbacks ?W). \<forall>e. hbody h m = Some e \<longrightarrow> is_Exception e \<and> hname h \<noteq> None)
          \<longrightarrow> calls_for (stem ''new.json'') (trace (run lib0 ?TH (Advance ?E # ?later)))
                = map (\<lambda>h. (hname h, m)) (callbacks ?W)"
    by blast
  with parse pass exn
  have "calls_for (stem ''new.json'') (trace (run lib0 ?TH (Advance ?E # ?later)))
          = map (\<lambda>h. (hname h, ?M)) (callbacks ?W)"
    by blast
  then have a: "calls_for ''new'' (trace (run lib0 ?TH (Advance ?E # ?later)))
          = map (\<lambda>h. (hname h, ?M)) (callbacks ?W)"
    by (simp only: stem_examples)
  have b: "callbacks ?W = [returning ''on_message'']"
    unfolding W by simp
  from a b show ?thesis by blast
qed

end
